theory Spec2Isabelle
  imports Main "HOL-Library.Char_ord" "HOL-Library.List_Lexorder" "HOL-Library.Product_Lexorder"
begin

section \<open>Regular expressions, as \<open>re.match\<close> runs them\<close>

text \<open>
  The fragment of Python's \<open>re\<close> syntax that the pattern of \<open>scrape_runners_data\<close> uses:
  a character class repeated between \<open>lo\<close> and \<open>hi\<close> times, greedily or lazily
  (\<open>Rep\<close>), sequence, alternation and a named group. Strings are lists of 8-bit
  characters; among those, \<open>\d\<close> matches the ten ASCII digits only and \<open>.\<close> matches
  everything but the line feed (no flag is passed to \<open>re.match\<close>).

  \<open>matches r (s, g)\<close> lists every way in which \<open>r\<close> matches a prefix of \<open>s\<close>, as the
  rest of the string with the groups bound so far, in the order in which the backtracking
  matcher tries them: a greedy repetition tries the longest run first, a lazy one the
  shortest, an alternation its left branch first. \<open>re.match\<close> returns the first of them.
\<close>

type_synonym groups = "(string \<times> string) list"

datatype regex =
    Eps
  | Rep bool nat "nat option" "char \<Rightarrow> bool"
  | Seq regex regex
  | Alt regex regex
  | Grp string regex

definition run_length :: "(char \<Rightarrow> bool) \<Rightarrow> nat option \<Rightarrow> string \<Rightarrow> nat" where
  "run_length c hi s = (case hi of None \<Rightarrow> length (takeWhile c s)
                 | Some h \<Rightarrow> min h (length (takeWhile c s)))"

definition counts :: "bool \<Rightarrow> nat \<Rightarrow> nat \<Rightarrow> nat list" where
  "counts greedy lo n = (if greedy then rev [lo..<Suc n] else [lo..<Suc n])"

fun matches :: "regex \<Rightarrow> string \<times> groups \<Rightarrow> (string \<times> groups) list" where
  "matches Eps x = [x]"
| "matches (Rep greedy lo hi c) (s, g) =
     map (\<lambda>i. (drop i s, g)) (counts greedy lo (run_length c hi s))"
| "matches (Seq a b) x = concat (map (matches b) (matches a x))"
| "matches (Alt a b) x = matches a x @ matches b x"
| "matches (Grp n r) (s, g) =
     map (\<lambda>(s', g'). (s', (n, take (length s - length s') s) # g')) (matches r (s, g))"

definition digit :: "char \<Rightarrow> bool" where
  "digit c = (c \<in> set ''0123456789'')"

definition dot :: "char \<Rightarrow> bool" where
  "dot c = (c \<noteq> CHR 0x0A)"

definition lit :: "char \<Rightarrow> regex" where
  "lit a = Rep True 1 (Some 1) (\<lambda>c. c = a)"

definition rep1 :: "(char \<Rightarrow> bool) \<Rightarrow> regex" where
  "rep1 c = Rep True 1 None c"

definition spaces :: regex where
  "spaces = rep1 (\<lambda>c. c = CHR '' '')"

fun cat :: "regex list \<Rightarrow> regex" where
  "cat [] = Eps"
| "cat (r # rs) = Seq r (cat rs)"

definition literal :: "string \<Rightarrow> regex" where
  "literal w = cat (map lit w)"

text \<open>
  The strings of a regular expression, independently of the order in which the matcher
  looks for them, and the expressions without a group.
\<close>

primrec lang :: "regex \<Rightarrow> string set" where
  "lang Eps = {[]}"
| "lang (Rep greedy lo hi c) =
     {w. list_all c w \<and> lo \<le> length w \<and> (case hi of None \<Rightarrow> True | Some h \<Rightarrow> length w \<le> h)}"
| "lang (Seq a b) = {u @ v | u v. u \<in> lang a \<and> v \<in> lang b}"
| "lang (Alt a b) = lang a \<union> lang b"
| "lang (Grp n r) = lang r"

primrec groupfree :: "regex \<Rightarrow> bool" where
  "groupfree Eps = True"
| "groupfree (Rep greedy lo hi c) = True"
| "groupfree (Seq a b) = (groupfree a \<and> groupfree b)"
| "groupfree (Alt a b) = (groupfree a \<and> groupfree b)"
| "groupfree (Grp n r) = False"

section \<open>The record extractor (webparser/parser.py, \<open>scrape_runners_data\<close>)\<close>

text \<open>
  The pattern of lines 66 and 67, piece by piece:
  \<^verbatim>\<open>(?P<Category>[^ ]+) +(?P<Rang>\d+|DNF|DSQ|OUT)\.? +(?P<Fullname>[^\d]+?) +\<close>
  \<^verbatim>\<open>(?P<Age_year>\d{4}|\?{4}) +(?P<Location>.*?) +(?P<total_time>[\d:.,]+)? +.*?[^ ] +\(\d+\)\<close>
\<close>

definition category :: regex where
  "category = rep1 (\<lambda>c. c \<noteq> CHR '' '')"

definition rang :: regex where
  "rang = Alt (rep1 digit) (Alt (literal ''DNF'') (Alt (literal ''DSQ'') (literal ''OUT'')))"

definition age_year :: regex where
  "age_year = Alt (Rep True 4 (Some 4) digit) (Rep True 4 (Some 4) (\<lambda>c. c = CHR ''?''))"

definition fullname :: regex where
  "fullname = Rep False 1 None (\<lambda>c. \<not> digit c)"

definition location :: regex where
  "location = Rep False 0 None dot"

definition total_time :: regex where
  "total_time = rep1 (\<lambda>c. digit c \<or> c \<in> set '':.,'')"

definition trailer :: regex where
  "trailer = cat [spaces, Rep False 0 None dot, Rep True 1 (Some 1) (\<lambda>c. c \<noteq> CHR '' ''), spaces,
               lit CHR ''('', rep1 digit, lit CHR '')'']"

definition pattern :: regex where
  "pattern = cat [
     Grp ''Category'' category, spaces,
     Grp ''Rang'' rang, Rep True 0 (Some 1) (\<lambda>c. c = CHR ''.''), spaces,
     Grp ''Fullname'' fullname, spaces,
     Grp ''Age_year'' age_year, spaces,
     Grp ''Location'' location, spaces,
     Alt (Grp ''total_time'' total_time) Eps,
     trailer]"

text \<open>
  \<open>re.match(pattern, runner)\<close>: the groups of the first match, or \<open>None\<close>. In the source
  \<open>None.groupdict()\<close> then raises and the bare \<open>except\<close> continues with the next line;
  \<open>None\<close> here stands for that path. A group that took no part in the match has no entry:
  \<open>groupdict()\<close> gives Python's \<open>None\<close> for it, as \<open>map_of\<close> does here.
\<close>

definition re_match :: "string \<Rightarrow> groups option" where
  "re_match runner = (case matches pattern (runner, []) of [] \<Rightarrow> None | (_, g) # _ \<Rightarrow> Some g)"

text \<open>The forms of the captured fields, as predicates on the stored text.\<close>

definition category_shape :: "string \<Rightarrow> bool" where
  "category_shape w = (w \<noteq> [] \<and> list_all (\<lambda>c. c \<noteq> CHR '' '') w)"

definition rang_shape :: "string \<Rightarrow> bool" where
  "rang_shape w = ((w \<noteq> [] \<and> list_all digit w) \<or> w = ''DNF'' \<or> w = ''DSQ'' \<or> w = ''OUT'')"

definition fullname_shape :: "string \<Rightarrow> bool" where
  "fullname_shape w = (w \<noteq> [] \<and> list_all (\<lambda>c. \<not> digit c) w)"

definition year_shape :: "string \<Rightarrow> bool" where
  "year_shape w = ((length w = 4 \<and> list_all digit w) \<or> w = ''????'')"

definition location_shape :: "string \<Rightarrow> bool" where
  "location_shape w = list_all dot w"

definition time_shape :: "string \<Rightarrow> bool" where
  "time_shape w = (w \<noteq> [] \<and> list_all (\<lambda>c. digit c \<or> c \<in> set '':.,'') w)"

text \<open>
  The pattern after the rank: \<open>period\<close> is \<^verbatim>\<open>\.?\<close> and \<open>after_rank\<close> everything from
  the spaces before the name to the number in parentheses, so that the pattern is the
  category, spaces, the rank, \<open>period\<close> and \<open>after_rank\<close> in a row. \<open>first_match\<close> is the
  first of the matches of an expression, the one that \<open>re.match\<close> settles on when the rest of
  the pattern accepts it.
\<close>

definition first_match :: "regex \<Rightarrow> string \<times> groups \<Rightarrow> (string \<times> groups) option" where
  "first_match r x = (case matches r x of [] \<Rightarrow> None | y # _ \<Rightarrow> Some y)"

definition period :: regex where
  "period = Rep True 0 (Some 1) (\<lambda>c. c = CHR ''.'')"

definition after_rank :: regex where
  "after_rank = cat [spaces,
     Grp ''Fullname'' fullname, spaces,
     Grp ''Age_year'' age_year, spaces,
     Grp ''Location'' location, spaces,
     Alt (Grp ''total_time'' total_time) Eps,
     trailer]"


section \<open>Data frames\<close>

text \<open>
  A pandas DataFrame, as far as this program uses one: the column labels in order and the
  rows, each row giving a cell for a label. A cell is a text, an integer, or missing
  (\<open>None\<close>, \<open>NaN\<close> and \<open>pd.NA\<close> alike). A frame is rectangular: a label without an
  entry in a row reads as missing, which is how \<open>pd.concat\<close> fills a column that one of
  its arguments lacks. The row index is positional throughout (\<open>reset_index(drop=True)\<close>).
\<close>

datatype cell = Text string | Num int | NA

type_synonym row = "string \<rightharpoonup> cell"

record frame =
  columns :: "string list"
  rows :: "row list"

datatype error = KeyError string | TypeError | OverflowError

definition cell :: "row \<Rightarrow> string \<Rightarrow> cell" where
  "cell r c = (case r c of Some v \<Rightarrow> v | None \<Rightarrow> NA)"

text \<open>\<open>df[c]\<close> read: the column, or \<open>KeyError\<close>.\<close>

definition getitem :: "frame \<Rightarrow> string \<Rightarrow> error + cell list" where
  "getitem df c =
     (if c \<in> set (columns df) then Inr (map (\<lambda>r. cell r c) (rows df)) else Inl (KeyError c))"

text \<open>
  \<open>df[c] = values\<close>: replaces the column or appends it as the last one. The values
  always come from columns of the same frame here, one for each row.
\<close>

definition setitem :: "frame \<Rightarrow> string \<Rightarrow> cell list \<Rightarrow> frame" where
  "setitem df c vs =
     \<lparr>columns = (if c \<in> set (columns df) then columns df else columns df @ [c]),
      rows = map2 (\<lambda>r v. r(c \<mapsto> v)) (rows df) vs\<rparr>"

text \<open>\<open>pd.concat([a, b]).reset_index(drop=True)\<close>.\<close>

definition concat_frames :: "frame \<Rightarrow> frame \<Rightarrow> frame" where
  "concat_frames a b =
     \<lparr>columns = columns a @ filter (\<lambda>c. c \<notin> set (columns a)) (columns b),
      rows = rows a @ rows b\<rparr>"

text \<open>\<open>df[mask]\<close> with a nullable boolean mask: the rows whose mask entry is true.\<close>

definition boolean_index :: "frame \<Rightarrow> bool option list \<Rightarrow> frame" where
  "boolean_index df keep =
     \<lparr>columns = columns df,
      rows = map fst (filter (\<lambda>(r, m). m = Some True) (zip (rows df) keep))\<rparr>"

text \<open>\<open>df.drop(columns=cs)\<close>; every label dropped in this program is present.\<close>

definition drop_columns :: "frame \<Rightarrow> string list \<Rightarrow> frame" where
  "drop_columns df cs =
     \<lparr>columns = filter (\<lambda>c. c \<notin> set cs) (columns df),
      rows = map (\<lambda>r. r |` (- set cs)) (rows df)\<rparr>"

subsection \<open>The loop over the lines of a page (lines 63 to 87)\<close>

definition column_names :: "string list" where
  "column_names = [''Category'', ''Rang'', ''Fullname'', ''Age_year'', ''Location'',
                   ''total_time'', ''run_link'', ''run_year'']"

definition group_cell :: "groups \<Rightarrow> string \<Rightarrow> cell" where
  "group_cell row n = (case map_of row n of Some s \<Rightarrow> Text s | None \<Rightarrow> NA)"

text \<open>The one-row frame of lines 73 to 85; \<open>year\<close> is the value of \<open>int(year)\<close>.\<close>

definition new_row :: "groups \<Rightarrow> string \<Rightarrow> int \<Rightarrow> frame" where
  "new_row row url year =
     \<lparr>columns = column_names,
      rows = [[''Category'' \<mapsto> group_cell row ''Category'',
               ''Rang'' \<mapsto> group_cell row ''Rang'',
               ''Fullname'' \<mapsto> group_cell row ''Fullname'',
               ''Age_year'' \<mapsto> group_cell row ''Age_year'',
               ''Location'' \<mapsto> group_cell row ''Location'',
               ''total_time'' \<mapsto> group_cell row ''total_time'',
               ''run_link'' \<mapsto> Text url,
               ''run_year'' \<mapsto> Num year]]\<rparr>"

fun runners_loop :: "string \<Rightarrow> int \<Rightarrow> string list \<Rightarrow> frame \<Rightarrow> frame" where
  "runners_loop url year [] df = df"
| "runners_loop url year (runner # rest) df =
     (case re_match runner of
        None \<Rightarrow> runners_loop url year rest df
      | Some row \<Rightarrow> runners_loop url year rest (concat_frames (new_row row url year) df))"

text \<open>
  The loops over years and letters. What the page source gives for one URL is an input:
  \<open>None\<close> when the request raised (the loop continues with the next URL), or the texts of
  the selected \<open>font\<close> elements.
\<close>

fun pages_loop :: "(string \<times> int \<times> string list option) list \<Rightarrow> frame \<Rightarrow> frame" where
  "pages_loop [] df = df"
| "pages_loop ((url, year, None) # ps) df = pages_loop ps df"
| "pages_loop ((url, year, Some runners) # ps) df =
     pages_loop ps (runners_loop url year runners df)"

definition scrape_runners_data :: "(string \<times> int \<times> string list option) list \<Rightarrow> frame" where
  "scrape_runners_data pages = pages_loop pages \<lparr>columns = column_names, rows = []\<rparr>"

section \<open>The normalizer (webparser/parser.py, \<open>clean_runners_data\<close>)\<close>

text \<open>
  \<open>pd.to_numeric(_, errors="coerce")\<close> on one cell: a text of decimal digits becomes
  its number, any other text is missing, a number stays. The texts of an \<open>Age_year\<close>
  column that the extractor built are four digits or four question marks; that is the
  range on which the statements below use it.
\<close>

definition int_of_digits :: "string \<Rightarrow> int" where
  "int_of_digits s = foldl (\<lambda>a c. 10 * a + (int (of_char c) - 48)) 0 s"

definition to_numeric :: "cell \<Rightarrow> cell" where
  "to_numeric v =
     (case v of
        Text s \<Rightarrow> (if s \<noteq> [] \<and> list_all digit s then Num (int_of_digits s) else NA)
      | Num i \<Rightarrow> Num i
      | NA \<Rightarrow> NA)"

text \<open>
  \<open>astype("Int64")\<close>: a column of nullable 64-bit integers, \<open>None\<close> being \<open>pd.NA\<close>.
  An integer out of range and a text are refused.
\<close>

definition int64 :: "int \<Rightarrow> bool" where
  "int64 i = (- (2 ^ 63) \<le> i \<and> i < 2 ^ 63)"

fun astype_Int64 :: "cell list \<Rightarrow> error + int option list" where
  "astype_Int64 [] = Inr []"
| "astype_Int64 (v # vs) =
     (case v of
        Text s \<Rightarrow> Inl TypeError
      | Num i \<Rightarrow>
          (if int64 i
           then (case astype_Int64 vs of Inl e \<Rightarrow> Inl e | Inr xs \<Rightarrow> Inr (Some i # xs))
           else Inl OverflowError)
      | NA \<Rightarrow> (case astype_Int64 vs of Inl e \<Rightarrow> Inl e | Inr xs \<Rightarrow> Inr (None # xs)))"

definition of_Int64 :: "int option \<Rightarrow> cell" where
  "of_Int64 x = (case x of Some i \<Rightarrow> Num i | None \<Rightarrow> NA)"

text \<open>Subtraction of two \<open>Int64\<close> cells: missing if either is, and it wraps around.\<close>

definition wrap64 :: "int \<Rightarrow> int" where
  "wrap64 x = (x + 2 ^ 63) mod 2 ^ 64 - 2 ^ 63"

definition sub64 :: "int option \<Rightarrow> int option \<Rightarrow> int option" where
  "sub64 x y = (case (x, y) of (Some a, Some b) \<Rightarrow> Some (wrap64 (a - b)) | _ \<Rightarrow> None)"

text \<open>
  The mask of line 108, \<open>df["age"].notna() & (df["age"] > 0)\<close>: \<open>notna\<close> is never
  missing, the comparison is missing where the age is, and \<open>&\<close> is the three-valued
  conjunction of nullable booleans.
\<close>

definition notna :: "int option \<Rightarrow> bool option" where
  "notna x = Some (x \<noteq> None)"

definition gt0 :: "int option \<Rightarrow> bool option" where
  "gt0 x = (case x of Some a \<Rightarrow> Some (0 < a) | None \<Rightarrow> None)"

definition kleene_and :: "bool option \<Rightarrow> bool option \<Rightarrow> bool option" where
  "kleene_and p q =
     (if p = Some False \<or> q = Some False then Some False
      else if p = Some True \<and> q = Some True then Some True
      else None)"

text \<open>
  \<open>clean_runners_data(df)\<close>. Lines 102 to 107 assign columns of the frame object that
  the caller passed; lines 108 and 111 bind the local name to new frames. The result is
  therefore a pair: the caller's frame as the call leaves it, and what the call returns,
  or the exception that it raises.
\<close>

definition clean_runners_data :: "frame \<Rightarrow> frame \<times> (error + frame)" where
  "clean_runners_data df =
     (case getitem df ''Age_year'' of
        Inl e \<Rightarrow> (df, Inl e)
      | Inr col \<Rightarrow>
         (let df1 = setitem df ''Age_year'' (map to_numeric col) in
          case astype_Int64 (map to_numeric col) of
            Inl e \<Rightarrow> (df1, Inl e)
          | Inr Age_year \<Rightarrow>
             (let df2 = setitem df1 ''Age_year'' (map of_Int64 Age_year) in
              case getitem df2 ''run_year'' of
                Inl e \<Rightarrow> (df2, Inl e)
              | Inr col' \<Rightarrow>
                 (case astype_Int64 col' of
                    Inl e \<Rightarrow> (df2, Inl e)
                  | Inr run_year \<Rightarrow>
                     (let df3 = setitem df2 ''run_year'' (map of_Int64 run_year);
                          age = map2 sub64 run_year Age_year;
                          df4 = setitem df3 ''age'' (map of_Int64 age);
                          kept = boolean_index df4
                                   (map2 kleene_and (map notna age) (map gt0 age))
                      in (df4, Inr (drop_columns kept [''age''])))))))"

text \<open>
  The frames that the normalizer is given: the eight columns of the extractor, in each row
  a birth year of the extractor's form and an event year that a 64-bit column holds.
\<close>

definition raw_record :: "row \<Rightarrow> bool" where
  "raw_record r =
     (case (r ''Age_year'', r ''run_year'') of
        (Some (Text b), Some (Num y)) \<Rightarrow> year_shape b \<and> int64 y
      | _ \<Rightarrow> False)"

definition raw_frame :: "frame \<Rightarrow> bool" where
  "raw_frame df = (columns df = column_names \<and> list_all raw_record (rows df))"

text \<open>
  The same computation read row by row: the two year cells as nullable integers, the age,
  the row as lines 102 to 107 leave it, and the test of line 108.
\<close>

definition as_Int64 :: "cell \<Rightarrow> int option" where
  "as_Int64 v = (case v of Num i \<Rightarrow> Some i | _ \<Rightarrow> None)"

definition Age_year_of :: "row \<Rightarrow> int option" where
  "Age_year_of r = as_Int64 (to_numeric (cell r ''Age_year''))"

definition run_year_of :: "row \<Rightarrow> int option" where
  "run_year_of r = as_Int64 (cell r ''run_year'')"

definition age_of :: "row \<Rightarrow> int option" where
  "age_of r = sub64 (run_year_of r) (Age_year_of r)"

definition coerce_row :: "row \<Rightarrow> row" where
  "coerce_row r =
     r(''Age_year'' \<mapsto> of_Int64 (Age_year_of r),
       ''run_year'' \<mapsto> of_Int64 (run_year_of r),
       ''age'' \<mapsto> of_Int64 (age_of r))"

definition valid_age :: "row \<Rightarrow> bool" where
  "valid_age r = (case age_of r of Some a \<Rightarrow> 0 < a | None \<Rightarrow> False)"

text \<open>The cells that \<open>astype("Int64")\<close> accepts.\<close>

definition ok64 :: "cell \<Rightarrow> bool" where
  "ok64 v = (case v of Text s \<Rightarrow> False | Num i \<Rightarrow> int64 i | NA \<Rightarrow> True)"

text \<open>Two rows as the extractor builds them, for the examples below.\<close>

definition jane :: row where
  "jane = [''Category'' \<mapsto> Text ''M40'', ''Rang'' \<mapsto> Text ''123'', ''Fullname'' \<mapsto> Text ''Jane Doe'',
           ''Age_year'' \<mapsto> Text ''1980'', ''Location'' \<mapsto> Text ''Zurich'',
           ''total_time'' \<mapsto> Text ''3:45:10'', ''run_link'' \<mapsto> Text ''alfaj.htm'',
           ''run_year'' \<mapsto> Num 2020]"

definition ann :: row where
  "ann = [''Category'' \<mapsto> Text ''W20'', ''Rang'' \<mapsto> Text ''DNF'', ''Fullname'' \<mapsto> Text ''Ann Lee'',
          ''Age_year'' \<mapsto> Text ''????'', ''Location'' \<mapsto> Text ''Bern'',
          ''total_time'' \<mapsto> NA, ''run_link'' \<mapsto> Text ''alfaa.htm'',
          ''run_year'' \<mapsto> Num 2020]"

definition two_runners :: frame where
  "two_runners = \<lparr>columns = column_names, rows = [ann, jane]\<rparr>"

section \<open>Age-group classifier (visualization/app.py, \<open>set_age_group\<close>)\<close>

text \<open>
  The chain of comparisons of \<open>set_age_group\<close>, in the order of the source. The age is a
  Python integer.
\<close>

definition set_age_group :: "int \<Rightarrow> string" where
  "set_age_group age =
     (if age \<le> 20 then ''0-20''
      else if 20 < age \<and> age \<le> 30 then ''20-30''
      else if 30 < age \<and> age \<le> 40 then ''30-40''
      else if 40 < age \<and> age \<le> 50 then ''40-50''
      else ''50+'')"

text \<open>
  Lines 48 and 49, run once when the module is loaded, on the frame read from the
  database. The two year columns are read as integers; a missing value gives a missing age,
  and \<open>set_age_group\<close> on a missing age takes its last branch, every comparison with
  \<open>NaN\<close> being false.
\<close>

fun numeric_column :: "cell list \<Rightarrow> error + int option list" where
  "numeric_column [] = Inr []"
| "numeric_column (v # vs) =
     (case v of
        Text s \<Rightarrow> Inl TypeError
      | Num i \<Rightarrow> (case numeric_column vs of Inl e \<Rightarrow> Inl e | Inr xs \<Rightarrow> Inr (Some i # xs))
      | NA \<Rightarrow> (case numeric_column vs of Inl e \<Rightarrow> Inl e | Inr xs \<Rightarrow> Inr (None # xs)))"

definition apply_set_age_group :: "int option \<Rightarrow> cell" where
  "apply_set_age_group x =
     (case x of Some age \<Rightarrow> Text (set_age_group age) | None \<Rightarrow> Text ''50+'')"

definition add_age_columns :: "frame \<Rightarrow> error + frame" where
  "add_age_columns df =
     (case getitem df ''run_year'' of
        Inl e \<Rightarrow> Inl e
      | Inr ys \<Rightarrow>
          (case getitem df ''Age_year'' of
             Inl e \<Rightarrow> Inl e
           | Inr bs \<Rightarrow>
               (case numeric_column ys of
                  Inl e \<Rightarrow> Inl e
                | Inr run_year \<Rightarrow>
                    (case numeric_column bs of
                       Inl e \<Rightarrow> Inl e
                     | Inr Age_year \<Rightarrow>
                        (let age = map2 sub64 run_year Age_year;
                             df1 = setitem df ''age'' (map of_Int64 age)
                         in Inr (setitem df1 ''age_group'' (map apply_set_age_group age)))))))"

section \<open>The aggregate (visualization/app.py, \<open>df2\<close>)\<close>

text \<open>
  \<open>df.groupby(["run_year", "age_group"]).size().reset_index(name="Count athletes")\<close>:
  one row for each pair of keys that occurs, in sorted order, with the number of rows
  that have it. \<open>groupby\<close> leaves out a row with a missing key. \<open>run_year\<close> is a column
  of integers and \<open>age_group\<close> a column of texts.
\<close>

definition group_key :: "row \<Rightarrow> (int \<times> string) option" where
  "group_key r =
     (case (cell r ''run_year'', cell r ''age_group'') of
        (Num y, Text g) \<Rightarrow> Some (y, g)
      | _ \<Rightarrow> None)"

definition group_keys :: "row list \<Rightarrow> (int \<times> string) list" where
  "group_keys rs = sort (remdups (List.map_filter group_key rs))"

definition group_row :: "row list \<Rightarrow> int \<times> string \<Rightarrow> row" where
  "group_row rs k =
     [''run_year'' \<mapsto> Num (fst k), ''age_group'' \<mapsto> Text (snd k),
      ''Count athletes'' \<mapsto> Num (int (length (filter (\<lambda>r. group_key r = Some k) rs)))]"

definition groupby_size :: "frame \<Rightarrow> frame" where
  "groupby_size df =
     \<lparr>columns = [''run_year'', ''age_group'', ''Count athletes''],
      rows = map (group_row (rows df)) (group_keys (rows df))\<rparr>"

section \<open>The filter (visualization/app.py, \<open>update_chart_and_table\<close>)\<close>

text \<open>
  \<open>str\<close> of an integer, for \<open>astype(str)\<close>. \<open>astype_str\<close> is \<open>astype(str)\<close> on one cell of a
  column of integers or of texts. A column of numbers with a missing cell has the dtype
  \<open>float64\<close>, where an integer \<open>n\<close> reads \<open>n.0\<close>: \<open>astype_str\<close> does not describe such a
  column, and the filter is stated on frames that have none (\<open>integer_years\<close> below).
\<close>

definition digit_char :: "nat \<Rightarrow> char" where
  "digit_char d = char_of (48 + d)"

function str_nat :: "nat \<Rightarrow> string" where
  "str_nat n = (if n < 10 then [digit_char n] else str_nat (n div 10) @ [digit_char (n mod 10)])"
  by pat_completeness auto
termination
  by (relation "measure id") auto

declare str_nat.simps [simp del]

definition str_int :: "int \<Rightarrow> string" where
  "str_int i = (if i < 0 then CHR ''-'' # str_nat (nat (- i)) else str_nat (nat i))"

definition astype_str :: "cell \<Rightarrow> string" where
  "astype_str v = (case v of Text s \<Rightarrow> s | Num i \<Rightarrow> str_int i | NA \<Rightarrow> ''nan'')"

text \<open>
  \<open>isin(values)\<close> on one cell: whether the cell equals one of the values. The values
  are texts, so a number or a missing cell is none of them.
\<close>

definition isin :: "cell \<Rightarrow> string list \<Rightarrow> bool" where
  "isin v xs = (case v of Text s \<Rightarrow> s \<in> set xs | _ \<Rightarrow> False)"

text \<open>
  A dropdown with \<open>multi=True\<close> gives the callback \<open>None\<close> or a list of its values, which
  are texts. \<open>if selected:\<close> holds for a list that is not empty.
\<close>

definition selected :: "string list option \<Rightarrow> string list" where
  "selected sel = (case sel of None \<Rightarrow> [] | Some xs \<Rightarrow> xs)"

definition truthy :: "string list option \<Rightarrow> bool" where
  "truthy sel = (selected sel \<noteq> [])"

text \<open>
  \<open>df[column.isin(sel)]\<close>, the column being \<open>df["run_year"].astype(str)\<close> in lines
  139 to 144 and \<open>df["age_group"]\<close> in lines 148 to 153.
\<close>

definition isin_rows :: "(row \<Rightarrow> cell) \<Rightarrow> string list option \<Rightarrow> frame \<Rightarrow> frame" where
  "isin_rows column sel df = df\<lparr>rows := filter (\<lambda>r. isin (column r) (selected sel)) (rows df)\<rparr>"

definition run_year_str :: "row \<Rightarrow> cell" where
  "run_year_str r = Text (astype_str (cell r ''run_year''))"

definition age_group_of :: "row \<Rightarrow> cell" where
  "age_group_of r = cell r ''age_group''"

text \<open>
  The callback, given the two module-level frames. It returns the frame that the bar
  chart is drawn from and the records of the table.
\<close>

definition update_chart_and_table ::
    "frame \<Rightarrow> frame \<Rightarrow> string list option \<Rightarrow> string list option \<Rightarrow> frame \<times> row list" where
  "update_chart_and_table df df2 selected_years selected_age_groups =
     (let filtered_data = df;
          filtered_bar_data = df2;
          (filtered_data, filtered_bar_data) =
             (if truthy selected_years
              then (isin_rows run_year_str selected_years filtered_data,
                    isin_rows run_year_str selected_years filtered_bar_data)
              else (filtered_data, filtered_bar_data));
          (filtered_data, filtered_bar_data) =
             (if truthy selected_age_groups
              then (isin_rows age_group_of selected_age_groups filtered_data,
                    isin_rows age_group_of selected_age_groups filtered_bar_data)
              else (filtered_data, filtered_bar_data))
      in (filtered_bar_data, rows filtered_data))"

text \<open>
  The test that the two selections put on a row, written once: an empty or absent
  selection lets every row pass, another one asks for membership of the text of the cell.
\<close>

definition passes :: "string list option \<Rightarrow> string list option \<Rightarrow> row \<Rightarrow> bool" where
  "passes years groups r =
     ((selected years = [] \<or> isin (run_year_str r) (selected years)) \<and>
      (selected groups = [] \<or> isin (age_group_of r) (selected groups)))"

text \<open>
  The frames that the dashboard loads: the two year columns are there and hold integers in
  every row, as the normalizer leaves them. \<open>with_age\<close> is lines 48 and 49 on one row,
  and \<open>sum_counts\<close> the total of the column \<open>Count athletes\<close>.
\<close>

definition cleaned_record :: "row \<Rightarrow> bool" where
  "cleaned_record r =
     (case (r ''Age_year'', r ''run_year'') of
        (Some (Num b), Some (Num y)) \<Rightarrow> True
      | _ \<Rightarrow> False)"

definition cleaned_frame :: "frame \<Rightarrow> bool" where
  "cleaned_frame df =
     (''Age_year'' \<in> set (columns df) \<and> ''run_year'' \<in> set (columns df) \<and>
      list_all cleaned_record (rows df))"

text \<open>
  The frames on which the filter is described: \<open>run_year\<close> and \<open>age_group\<close> are columns
  (\<open>df["run_year"]\<close> raises \<open>KeyError\<close> otherwise) and every cell of \<open>run_year\<close> is an
  integer, so that the column has an integer dtype and \<open>astype(str)\<close> gives the decimal
  text of each cell.
\<close>

definition integer_years :: "frame \<Rightarrow> bool" where
  "integer_years df =
     (''run_year'' \<in> set (columns df) \<and> ''age_group'' \<in> set (columns df) \<and>
      list_all (\<lambda>r. case r ''run_year'' of Some (Num y) \<Rightarrow> True | _ \<Rightarrow> False) (rows df))"

definition with_age :: "row \<Rightarrow> row" where
  "with_age r =
     (let age = sub64 (as_Int64 (cell r ''run_year'')) (as_Int64 (cell r ''Age_year''))
      in r(''age'' \<mapsto> of_Int64 age, ''age_group'' \<mapsto> apply_set_age_group age))"

definition sum_counts :: "frame \<Rightarrow> int" where
  "sum_counts df =
     sum_list (map (\<lambda>r. case cell r ''Count athletes'' of Num n \<Rightarrow> n | _ \<Rightarrow> 0) (rows df))"

text \<open>
  The cells of a frame, row by row in the order of its columns, and a cleaned frame with
  what the dashboard makes of it, for the examples below.
\<close>

definition table :: "frame \<Rightarrow> cell list list" where
  "table df = map (\<lambda>r. map (cell r) (columns df)) (rows df)"

definition cleaned_example :: frame where
  "cleaned_example =
     \<lparr>columns = column_names,
      rows = [jane(''Age_year'' \<mapsto> Num 1980), ann(''Age_year'' \<mapsto> Num 2001)]\<rparr>"

definition loaded_example :: frame where
  "loaded_example =
     \<lparr>columns = column_names @ [''age'', ''age_group''],
      rows = map with_age (rows cleaned_example)\<rparr>"

text \<open>
  The line of the scenario and a line with the further field that the results pages have
  between the time and the number in parentheses. \<open>dashboard_frame\<close> is the normalizer
  followed by lines 48 and 49 of the dashboard; the database in between stores the cleaned
  rows and gives them back.
\<close>

definition spec_line :: string where
  "spec_line = ''M40 123 Jane Doe 1980 Zurich 3:45:10 (55)''"

definition results_line :: string where
  "results_line = ''M40 123 Jane Doe 1980 Zurich 3:45:10 0:12 (55)''"

text \<open>What follows the rank in \<open>results_line\<close>.\<close>

definition results_rest :: string where
  "results_rest = '' Jane Doe 1980 Zurich 3:45:10 0:12 (55)''"

definition dashboard_frame :: "frame \<Rightarrow> error + frame" where
  "dashboard_frame raw =
     (case snd (clean_runners_data raw) of Inl e \<Rightarrow> Inl e | Inr out \<Rightarrow> add_age_columns out)"


section \<open>Lemmas about the extractor\<close>

subsection \<open>The matcher and the language of an expression\<close>

lemma counts_bounds: "i \<in> set (counts greedy lo n) \<Longrightarrow> lo \<le> i \<and> i \<le> n"
  by (auto simp: counts_def split: if_splits)

lemma run_length_le: "run_length c hi s \<le> length (takeWhile c s)"
  by (simp add: run_length_def split: option.splits)

lemma run_length_hi: "hi = Some h \<Longrightarrow> run_length c hi s \<le> h"
  by (simp add: run_length_def)

lemma take_run_all:
  assumes "i \<le> length (takeWhile c s)"
  shows "list_all c (take i s)"
proof -
  have "take i s = take i (takeWhile c s)"
    using assms by (metis min.absorb1 takeWhile_eq_take take_take)
  then show ?thesis
    by (metis in_set_takeD list_all_iff set_takeWhileD)
qed

lemma matches_Rep:
  assumes "(s', g') \<in> set (matches (Rep greedy lo hi c) (s, g))"
  shows "g' = g \<and> (\<exists>w \<in> lang (Rep greedy lo hi c). s = w @ s')"
proof -
  from assms obtain i where i: "i \<in> set (counts greedy lo (run_length c hi s))"
    and s': "s' = drop i s" and g': "g' = g"
    by auto
  from i have lo: "lo \<le> i" and up: "i \<le> run_length c hi s"
    using counts_bounds by blast+
  have le: "i \<le> length (takeWhile c s)"
    using up run_length_le [of c hi s] by simp
  then have "i \<le> length s"
    using length_takeWhile_le [of c s] by simp
  then have len: "length (take i s) = i" by simp
  have hi: "case hi of None \<Rightarrow> True | Some h \<Rightarrow> i \<le> h"
    using up run_length_hi [of hi _ c s] by (auto split: option.splits)
  have "take i s \<in> lang (Rep greedy lo hi c)"
    using take_run_all [OF le] lo hi len by (simp split: option.splits)
  moreover have "s = take i s @ s'" using s' by simp
  ultimately show ?thesis using g' by blast
qed

lemma set_matches_Seq:
  "set (matches (Seq a b) x) = (\<Union>y \<in> set (matches a x). set (matches b y))"
  by simp

lemma matches_sound:
  "(s', g') \<in> set (matches r (s, g)) \<Longrightarrow> \<exists>w \<in> lang r. s = w @ s'"
proof (induction r arbitrary: s g s' g')
  case Eps
  then show ?case by simp
next
  case (Rep greedy lo hi c)
  then show ?case using matches_Rep by blast
next
  case (Seq a b)
  then obtain t h where 1: "(t, h) \<in> set (matches a (s, g))" and 2: "(s', g') \<in> set (matches b (t, h))"
    by auto
  from Seq.IH(1) [OF 1] obtain u where u: "u \<in> lang a" "s = u @ t" by blast
  from Seq.IH(2) [OF 2] obtain v where v: "v \<in> lang b" "t = v @ s'" by blast
  have "u @ v \<in> lang (Seq a b)" using u v by auto
  moreover have "s = (u @ v) @ s'" using u v by simp
  ultimately show ?case by blast
next
  case (Alt a b)
  from Alt.prems consider "(s', g') \<in> set (matches a (s, g))" | "(s', g') \<in> set (matches b (s, g))"
    by auto
  then show ?case
  proof cases
    case 1
    from Alt.IH(1) [OF 1] show ?thesis by auto
  next
    case 2
    from Alt.IH(2) [OF 2] show ?thesis by auto
  qed
next
  case (Grp n r)
  from Grp.prems obtain g0 where "(s', g0) \<in> set (matches r (s, g))" by auto
  from Grp.IH [OF this] show ?case by simp
qed

lemma matches_groupfree:
  "groupfree r \<Longrightarrow> (s', g') \<in> set (matches r (s, g)) \<Longrightarrow> g' = g"
proof (induction r arbitrary: s g s' g')
  case (Seq a b)
  then obtain t h where 1: "(t, h) \<in> set (matches a (s, g))" and 2: "(s', g') \<in> set (matches b (t, h))"
    by auto
  from Seq.IH(1) [OF _ 1] Seq.prems(1) have "h = g" by simp
  with Seq.IH(2) [OF _ 2] Seq.prems(1) show ?case by simp
qed auto

lemma matches_Grp:
  assumes "groupfree r" and "(s', g') \<in> set (matches (Grp n r) (s, g))"
  shows "\<exists>w \<in> lang r. s = w @ s' \<and> g' = (n, w) # g"
proof -
  from assms(2) obtain g0 where m: "(s', g0) \<in> set (matches r (s, g))"
    and g': "g' = (n, take (length s - length s') s) # g0"
    by auto
  from matches_groupfree [OF assms(1) m] have "g0 = g" .
  moreover from matches_sound [OF m] obtain w where "w \<in> lang r" "s = w @ s'" by blast
  ultimately show ?thesis using g' by auto
qed

lemma matches_complete:
  "w \<in> lang r \<Longrightarrow> \<exists>g'. (s', g') \<in> set (matches r (w @ s', g))"
proof (induction r arbitrary: w s' g)
  case Eps
  then show ?case by simp
next
  case (Rep greedy lo hi c)
  then have all: "list_all c w" and lo: "lo \<le> length w"
    and hi: "case hi of None \<Rightarrow> True | Some h \<Rightarrow> length w \<le> h" by auto
  have "length w \<le> length (takeWhile c (w @ s'))"
    using all by (simp add: list_all_iff takeWhile_append2)
  then have "length w \<le> run_length c hi (w @ s')"
    using hi by (simp add: run_length_def split: option.splits)
  then have "length w \<in> set (counts greedy lo (run_length c hi (w @ s')))"
    using lo by (auto simp: counts_def)
  then have "(drop (length w) (w @ s'), g) \<in> set (matches (Rep greedy lo hi c) (w @ s', g))"
    by (auto simp del: drop_append)
  then show ?case by auto
next
  case (Seq a b)
  then obtain u v where w: "w = u @ v" and u: "u \<in> lang a" and v: "v \<in> lang b" by auto
  from Seq.IH(1) [OF u, of "v @ s'" g] obtain h where 1: "(v @ s', h) \<in> set (matches a (u @ v @ s', g))" by blast
  from Seq.IH(2) [OF v, of s' h] obtain g' where 2: "(s', g') \<in> set (matches b (v @ s', h))" by blast
  show ?case using 1 2 w by auto
next
  case (Alt a b)
  from Alt.prems consider "w \<in> lang a" | "w \<in> lang b" by auto
  then show ?case
  proof cases
    case 1
    from Alt.IH(1) [OF 1, of s' g] show ?thesis by auto
  next
    case 2
    from Alt.IH(2) [OF 2, of s' g] show ?thesis by auto
  qed
next
  case (Grp n r)
  from Grp.IH [of w s' g] Grp.prems obtain g0 where "(s', g0) \<in> set (matches r (w @ s', g))" by auto
  then show ?case by force
qed

subsection \<open>What a match of the pattern binds\<close>

lemma lang_rep1: "lang (rep1 c) = {w. w \<noteq> [] \<and> list_all c w}"
  by (auto simp: rep1_def Suc_le_eq)

lemma lang_lit: "lang (lit a) = {[a]}"
proof -
  have "w = [a]" if "list_all (\<lambda>c. c = a) w" "Suc 0 \<le> length w" "length w \<le> Suc 0" for w
    using that by (cases w) auto
  then show ?thesis by (auto simp: lit_def)
qed

lemma lang_literal3: "lang (literal [a, b, c]) = {[a, b, c]}"
  by (auto simp: literal_def lang_lit)

lemma four_same:
  assumes "length w = 4" and "list_all (\<lambda>c. c = a) w"
  shows "w = [a, a, a, a]"
proof -
  from assms(1) obtain p q r t where "w = [p, q, r, t]"
    by (auto simp: length_Suc_conv numeral_eq_Suc)
  with assms(2) show ?thesis by simp
qed

lemma lang_category: "w \<in> lang category \<Longrightarrow> category_shape w"
  by (simp add: category_def lang_rep1 category_shape_def)

lemma lang_rang: "w \<in> lang rang \<Longrightarrow> rang_shape w"
  by (auto simp: rang_def lang_rep1 lang_literal3 rang_shape_def)

lemma lang_fullname: "w \<in> lang fullname \<Longrightarrow> fullname_shape w"
  by (auto simp: fullname_def fullname_shape_def)

lemma lang_age_year: "w \<in> lang age_year \<Longrightarrow> year_shape w"
  by (auto simp: age_year_def year_shape_def dest: four_same)

lemma lang_location: "w \<in> lang location \<Longrightarrow> location_shape w"
  by (simp add: location_def location_shape_def)

lemma lang_total_time: "w \<in> lang total_time \<Longrightarrow> time_shape w"
  by (simp add: total_time_def lang_rep1 time_shape_def)

lemma groupfree_pieces:
  "groupfree category" "groupfree rang" "groupfree fullname" "groupfree age_year"
  "groupfree location" "groupfree total_time" "groupfree spaces" "groupfree trailer"
  by (simp_all add: category_def rang_def fullname_def age_year_def location_def
      total_time_def spaces_def trailer_def rep1_def literal_def lit_def)

lemma Seq_GrpE:
  assumes "(s', g') \<in> set (matches (Seq (Grp n r) rest) (s, g))" and "groupfree r"
  obtains w t where "w \<in> lang r" and "(s', g') \<in> set (matches rest (t, (n, w) # g))"
proof -
  from assms(1) obtain t h where 1: "(t, h) \<in> set (matches (Grp n r) (s, g))"
    and 2: "(s', g') \<in> set (matches rest (t, h))"
    by (auto simp del: matches.simps(5))
  from matches_Grp [OF assms(2) 1] obtain w where "w \<in> lang r" "h = (n, w) # g" by blast
  with 2 that show thesis by blast
qed

lemma Seq_freeE:
  assumes "(s', g') \<in> set (matches (Seq r rest) (s, g))" and "groupfree r"
  obtains t where "(s', g') \<in> set (matches rest (t, g))"
proof -
  from assms(1) obtain t h where 1: "(t, h) \<in> set (matches r (s, g))"
    and 2: "(s', g') \<in> set (matches rest (t, h))"
    by auto
  from matches_groupfree [OF assms(2) 1] 2 that show thesis by blast
qed

lemma Seq_optE:
  assumes "(s', g') \<in> set (matches (Seq (Alt (Grp n r) Eps) rest) (s, g))" and "groupfree r"
  obtains (taken) w t where "w \<in> lang r" and "(s', g') \<in> set (matches rest (t, (n, w) # g))"
  | (skipped) "(s', g') \<in> set (matches rest (s, g))"
proof -
  from assms(1) obtain t h where 1: "(t, h) \<in> set (matches (Alt (Grp n r) Eps) (s, g))"
    and 2: "(s', g') \<in> set (matches rest (t, h))"
    by (auto simp del: matches.simps(4))
  from 1 consider "(t, h) \<in> set (matches (Grp n r) (s, g))" | "t = s \<and> h = g"
    by (auto simp del: matches.simps(5))
  then show thesis
  proof cases
    case 1
    from matches_Grp [OF assms(2) 1] obtain w where "w \<in> lang r" "h = (n, w) # g" by blast
    with 2 taken show thesis by blast
  next
    case 2
    with \<open>(s', g') \<in> set (matches rest (t, h))\<close> skipped show thesis by blast
  qed
qed

lemma last_freeE:
  assumes "(s', g') \<in> set (matches (Seq r Eps) (s, g))" and "groupfree r"
  obtains "g' = g"
  using matches_groupfree [of "Seq r Eps" s' g' s g] assms that by simp

lemma pattern_groups:
  assumes "(s', g) \<in> set (matches pattern (s, []))"
  shows "\<exists>c r f y l.
           category_shape c \<and> rang_shape r \<and> fullname_shape f \<and> year_shape y \<and> location_shape l \<and>
           (g = [(''Location'', l), (''Age_year'', y), (''Fullname'', f), (''Rang'', r), (''Category'', c)]
            \<or> (\<exists>t. time_shape t \<and>
                  g = [(''total_time'', t), (''Location'', l), (''Age_year'', y), (''Fullname'', f),
                       (''Rang'', r), (''Category'', c)]))"
  apply (insert assms)
  apply (unfold pattern_def cat.simps)
  apply (erule Seq_GrpE, rule groupfree_pieces)
  apply (erule Seq_freeE, rule groupfree_pieces)
  apply (erule Seq_GrpE, rule groupfree_pieces)
  apply (erule Seq_freeE, simp)
  apply (erule Seq_freeE, rule groupfree_pieces)
  apply (erule Seq_GrpE, rule groupfree_pieces)
  apply (erule Seq_freeE, rule groupfree_pieces)
  apply (erule Seq_GrpE, rule groupfree_pieces)
  apply (erule Seq_freeE, rule groupfree_pieces)
  apply (erule Seq_GrpE, rule groupfree_pieces)
  apply (erule Seq_freeE, rule groupfree_pieces)
  apply (erule Seq_optE, rule groupfree_pieces)
   apply (erule last_freeE, rule groupfree_pieces)
   apply (blast dest: lang_category lang_rang lang_fullname lang_age_year lang_location lang_total_time)
  apply (erule last_freeE, rule groupfree_pieces)
  apply (blast dest: lang_category lang_rang lang_fullname lang_age_year lang_location)
  done

lemma re_match_Some:
  assumes "re_match runner = Some row"
  shows "\<exists>s'. (s', row) \<in> set (matches pattern (runner, []))"
proof -
  from assms obtain s' ms where "matches pattern (runner, []) = (s', row) # ms"
    by (auto simp: re_match_def split: list.splits)
  then have "(s', row) \<in> set (matches pattern (runner, []))" by simp
  then show ?thesis ..
qed

lemma re_match_None_iff:
  "(re_match runner = None) = (\<not> (\<exists>w s'. w \<in> lang pattern \<and> runner = w @ s'))"
proof
  assume none: "re_match runner = None"
  show "\<not> (\<exists>w s'. w \<in> lang pattern \<and> runner = w @ s')"
  proof
    assume "\<exists>w s'. w \<in> lang pattern \<and> runner = w @ s'"
    then obtain w s' where "w \<in> lang pattern" "runner = w @ s'" by blast
    with matches_complete [of w pattern s' "[]"]
    have "matches pattern (runner, []) \<noteq> []" by auto
    with none show False by (auto simp: re_match_def split: list.splits)
  qed
next
  assume no: "\<not> (\<exists>w s'. w \<in> lang pattern \<and> runner = w @ s')"
  show "re_match runner = None"
  proof (cases "re_match runner")
    case None
    then show ?thesis .
  next
    case (Some row)
    from re_match_Some [OF Some] obtain s' where "(s', row) \<in> set (matches pattern (runner, []))" ..
    from matches_sound [OF this] no show ?thesis by blast
  qed
qed

lemma runners_loop_length:
  "length (rows (runners_loop url year runners df)) =
     length (rows df) + length (filter (\<lambda>runner. re_match runner \<noteq> None) runners)"
  by (induction runners arbitrary: df) (auto simp: concat_frames_def new_row_def split: option.splits)

section \<open>Lemmas about the normalizer\<close>

lemma zip_map_same: "zip (map f xs) (map g xs) = map (\<lambda>x. (f x, g x)) xs"
  by (induction xs) auto

lemma setitem_map:
  "setitem df c (map f (rows df)) =
     \<lparr>columns = (if c \<in> set (columns df) then columns df else columns df @ [c]),
      rows = map (\<lambda>r. r(c \<mapsto> f r)) (rows df)\<rparr>"
  using zip_map_same [of "\<lambda>r. r" "rows df" f] by (simp add: setitem_def)

lemma setitem_map_rows:
  assumes "rows df = map h rs"
  shows "setitem df c (map f rs) =
     \<lparr>columns = (if c \<in> set (columns df) then columns df else columns df @ [c]),
      rows = map (\<lambda>r. (h r)(c \<mapsto> f r)) rs\<rparr>"
  using assms by (simp add: setitem_def zip_map_same)

lemma astype_Int64_ok: "list_all ok64 vs \<Longrightarrow> astype_Int64 vs = Inr (map as_Int64 vs)"
  by (induction vs) (auto simp: ok64_def as_Int64_def split: cell.splits)

lemma of_Int64_as_Int64: "ok64 v \<Longrightarrow> of_Int64 (as_Int64 v) = v"
  by (auto simp: ok64_def as_Int64_def of_Int64_def split: cell.splits)

lemma digit_val: "digit c \<Longrightarrow> 0 \<le> int (of_char c) - 48 \<and> int (of_char c) - 48 \<le> 9"
  by (auto simp: digit_def)

lemma int_of_digits4:
  assumes "length w = 4" and "list_all digit w"
  shows "0 \<le> int_of_digits w \<and> int_of_digits w \<le> 9999"
proof -
  from assms(1) obtain p q r t where w: "w = [p, q, r, t]"
    by (auto simp: length_Suc_conv numeral_eq_Suc)
  with assms(2) have "digit p" "digit q" "digit r" "digit t" by simp_all
  from this [THEN digit_val] show ?thesis
    unfolding w int_of_digits_def by simp
qed

lemma not_digit_qmark: "\<not> digit CHR ''?''"
  by (simp add: digit_def)

lemma to_numeric_year:
  assumes "year_shape b"
  shows "(to_numeric (Text b) = NA \<and> b = ''????'') \<or>
         (to_numeric (Text b) = Num (int_of_digits b) \<and> list_all digit b
            \<and> 0 \<le> int_of_digits b \<and> int_of_digits b \<le> 9999)"
  using assms int_of_digits4 [of b]
  by (auto simp: year_shape_def to_numeric_def not_digit_qmark)

lemma int64_small: "0 \<le> i \<Longrightarrow> i \<le> 9999 \<Longrightarrow> int64 i"
  by (simp add: int64_def)

lemma raw_record_cells:
  assumes "raw_record r"
  obtains b y where "r ''Age_year'' = Some (Text b)" "r ''run_year'' = Some (Num y)"
    "year_shape b" "int64 y"
proof -
  from assms have "\<exists>b y. r ''Age_year'' = Some (Text b) \<and> r ''run_year'' = Some (Num y)
      \<and> year_shape b \<and> int64 y"
    by (cases "r ''Age_year''"; cases "r ''run_year''";
        simp add: raw_record_def split: cell.splits)
  with that show thesis by blast
qed

lemma raw_record_ok:
  assumes "raw_record r"
  shows "ok64 (to_numeric (cell r ''Age_year''))" and "ok64 (cell r ''run_year'')"
proof -
  from assms obtain b y where c: "r ''Age_year'' = Some (Text b)" "r ''run_year'' = Some (Num y)"
    "year_shape b" "int64 y" by (rule raw_record_cells)
  from to_numeric_year [OF c(3)] show "ok64 (to_numeric (cell r ''Age_year''))"
    using c(1) by (auto simp: cell_def ok64_def int64_small)
  show "ok64 (cell r ''run_year'')" using c by (simp add: cell_def ok64_def)
qed

lemma clean_raw:
  assumes "raw_frame df"
  shows "clean_runners_data df =
     (\<lparr>columns = column_names @ [''age''], rows = map coerce_row (rows df)\<rparr>,
      Inr \<lparr>columns = column_names,
           rows = map (\<lambda>r. coerce_row r |` (- {''age''})) (filter valid_age (rows df))\<rparr>)"
proof -
  let ?rs = "rows df"
  let ?r1 = "\<lambda>r::row. r(''Age_year'' \<mapsto> to_numeric (cell r ''Age_year''))"
  let ?r2 = "\<lambda>r::row. r(''Age_year'' \<mapsto> of_Int64 (Age_year_of r))"
  let ?r3 = "\<lambda>r::row. r(''Age_year'' \<mapsto> of_Int64 (Age_year_of r),
                         ''run_year'' \<mapsto> of_Int64 (run_year_of r))"
  let ?df1 = "\<lparr>columns = column_names, rows = map ?r1 ?rs\<rparr>"
  let ?df2 = "\<lparr>columns = column_names, rows = map ?r2 ?rs\<rparr>"
  let ?df3 = "\<lparr>columns = column_names, rows = map ?r3 ?rs\<rparr>"
  let ?df4 = "\<lparr>columns = column_names @ [''age''], rows = map coerce_row ?rs\<rparr>"
  from assms have cols: "columns df = column_names" and raw: "list_all raw_record ?rs"
    by (simp_all add: raw_frame_def)
  have g1: "getitem df ''Age_year'' = Inr (map (\<lambda>r. cell r ''Age_year'') ?rs)"
    by (simp add: getitem_def cols column_names_def)
  have df1: "setitem df ''Age_year'' (map to_numeric (map (\<lambda>r. cell r ''Age_year'') ?rs)) = ?df1"
    using setitem_map [of df "''Age_year''" "\<lambda>r. to_numeric (cell r ''Age_year'')"]
    by (simp add: cols column_names_def comp_def)
  have a1: "astype_Int64 (map to_numeric (map (\<lambda>r. cell r ''Age_year'') ?rs)) = Inr (map Age_year_of ?rs)"
  proof -
    have "list_all ok64 (map to_numeric (map (\<lambda>r. cell r ''Age_year'') ?rs))"
      using raw raw_record_ok(1) by (simp add: list_all_iff)
    from astype_Int64_ok [OF this] show ?thesis by (simp add: comp_def Age_year_of_def)
  qed
  have df2: "setitem ?df1 ''Age_year'' (map of_Int64 (map Age_year_of ?rs)) = ?df2"
    using setitem_map_rows [of ?df1 ?r1 ?rs "''Age_year''" "\<lambda>r. of_Int64 (Age_year_of r)"]
    by (simp add: column_names_def comp_def)
  have g2: "getitem ?df2 ''run_year'' = Inr (map (\<lambda>r. cell r ''run_year'') ?rs)"
    by (simp add: getitem_def column_names_def cell_def comp_def)
  have a2: "astype_Int64 (map (\<lambda>r. cell r ''run_year'') ?rs) = Inr (map run_year_of ?rs)"
  proof -
    have "list_all ok64 (map (\<lambda>r. cell r ''run_year'') ?rs)"
      using raw raw_record_ok(2) by (simp add: list_all_iff)
    from astype_Int64_ok [OF this] show ?thesis by (simp add: comp_def run_year_of_def)
  qed
  have df3: "setitem ?df2 ''run_year'' (map of_Int64 (map run_year_of ?rs)) = ?df3"
    using setitem_map_rows [of ?df2 ?r2 ?rs "''run_year''" "\<lambda>r. of_Int64 (run_year_of r)"]
    by (simp add: column_names_def comp_def)
  have age: "map2 sub64 (map run_year_of ?rs) (map Age_year_of ?rs) = map age_of ?rs"
    by (simp add: zip_map_same age_of_def comp_def)
  have df4: "setitem ?df3 ''age'' (map of_Int64 (map age_of ?rs)) = ?df4"
    using setitem_map_rows [of ?df3 ?r3 ?rs "''age''" "\<lambda>r. of_Int64 (age_of r)"]
    by (simp add: column_names_def comp_def coerce_row_def)
  have keep: "map2 kleene_and (map notna (map age_of ?rs)) (map gt0 (map age_of ?rs))
                = map (\<lambda>r. Some (valid_age r)) ?rs"
    by (auto simp: zip_map_same comp_def kleene_and_def notna_def gt0_def valid_age_def
        split: option.splits)
  have kept: "boolean_index ?df4 (map (\<lambda>r. Some (valid_age r)) ?rs) =
                \<lparr>columns = column_names @ [''age''], rows = map coerce_row (filter valid_age ?rs)\<rparr>"
    by (simp add: boolean_index_def zip_map_same filter_map comp_def)
  have out: "drop_columns \<lparr>columns = column_names @ [''age''], rows = map coerce_row (filter valid_age ?rs)\<rparr> [''age'']
      = \<lparr>columns = column_names,
           rows = map (\<lambda>r. coerce_row r |` (- {''age''})) (filter valid_age ?rs)\<rparr>"
    by (simp add: drop_columns_def column_names_def comp_def)
  show ?thesis
    unfolding clean_runners_data_def
    by (simp only: g1 a1 df1 df2 g2 a2 df3 age df4 keep kept out Let_def sum.case)
qed

lemma wrap64_exact: "- (2 ^ 63) \<le> x \<Longrightarrow> x < 2 ^ 63 \<Longrightarrow> wrap64 x = x"
  by (simp add: wrap64_def)

lemma raw_valid:
  assumes "raw_record r" and "valid_age r"
  shows "\<exists>b0 y. r ''Age_year'' = Some (Text b0) \<and> list_all digit b0 \<and> r ''run_year'' = Some (Num y)
           \<and> int64 y \<and> Age_year_of r = Some (int_of_digits b0) \<and> run_year_of r = Some y
           \<and> age_of r = Some (wrap64 (y - int_of_digits b0))
           \<and> 0 \<le> int_of_digits b0 \<and> int_of_digits b0 \<le> 9999
           \<and> 0 < wrap64 (y - int_of_digits b0)"
proof -
  from assms(1) obtain b y where c: "r ''Age_year'' = Some (Text b)" "r ''run_year'' = Some (Num y)"
    "year_shape b" "int64 y" by (rule raw_record_cells)
  have ry: "run_year_of r = Some y" using c by (simp add: run_year_of_def cell_def as_Int64_def)
  from to_numeric_year [OF c(3)] show ?thesis
  proof (elim disjE conjE)
    assume "to_numeric (Text b) = NA"
    then have "Age_year_of r = None" using c(1) by (simp add: Age_year_of_def cell_def as_Int64_def)
    then have "\<not> valid_age r" by (simp add: valid_age_def age_of_def sub64_def split: option.splits)
    with assms(2) show ?thesis by simp
  next
    assume n: "to_numeric (Text b) = Num (int_of_digits b)" and d: "list_all digit b"
      and lo: "0 \<le> int_of_digits b" and hi: "int_of_digits b \<le> 9999"
    from n have ay: "Age_year_of r = Some (int_of_digits b)"
      using c(1) by (simp add: Age_year_of_def cell_def as_Int64_def)
    have age: "age_of r = Some (wrap64 (y - int_of_digits b))"
      using ay ry by (simp add: age_of_def sub64_def)
    with assms(2) have pos: "0 < wrap64 (y - int_of_digits b)" by (simp add: valid_age_def)
    show ?thesis
      by (intro exI [of _ b] exI [of _ y] conjI c(1) d c(2) c(4) ay ry age lo hi pos)
  qed
qed

lemma clean_output_row:
  assumes "raw_record r0" and "valid_age r0"
  shows "\<exists>b0 y. r0 ''Age_year'' = Some (Text b0) \<and> list_all digit b0
            \<and> r0 ''run_year'' = Some (Num y)
            \<and> (coerce_row r0 |` (- {''age''})) ''Age_year'' = Some (Num (int_of_digits b0))
            \<and> (coerce_row r0 |` (- {''age''})) ''run_year'' = Some (Num y)
            \<and> 0 < wrap64 (y - int_of_digits b0)
            \<and> (- (2 ^ 63) + 9999 \<le> y \<longrightarrow> 0 < y - int_of_digits b0)
            \<and> (\<forall>c. c \<noteq> ''Age_year'' \<and> c \<noteq> ''age'' \<longrightarrow> (coerce_row r0 |` (- {''age''})) c = r0 c)"
proof -
  from raw_valid [OF assms] obtain b0 y where
    f: "r0 ''Age_year'' = Some (Text b0)" "list_all digit b0" "r0 ''run_year'' = Some (Num y)"
    "int64 y" "Age_year_of r0 = Some (int_of_digits b0)" "run_year_of r0 = Some y"
    "0 \<le> int_of_digits b0" "int_of_digits b0 \<le> 9999" "0 < wrap64 (y - int_of_digits b0)"
    by blast
  have exact: "- (2 ^ 63) + 9999 \<le> y \<longrightarrow> 0 < y - int_of_digits b0"
  proof
    assume "- (2 ^ 63) + 9999 \<le> y"
    then have "wrap64 (y - int_of_digits b0) = y - int_of_digits b0"
      using f(4,7,8) by (intro wrap64_exact) (simp_all add: int64_def)
    with f(9) show "0 < y - int_of_digits b0" by simp
  qed
  have c1: "(coerce_row r0 |` (- {''age''})) ''Age_year'' = Some (Num (int_of_digits b0))"
    using f(5) by (simp add: coerce_row_def of_Int64_def restrict_map_def)
  have c2: "(coerce_row r0 |` (- {''age''})) ''run_year'' = Some (Num y)"
    using f(6) by (simp add: coerce_row_def of_Int64_def restrict_map_def)
  have c3: "\<forall>c. c \<noteq> ''Age_year'' \<and> c \<noteq> ''age'' \<longrightarrow> (coerce_row r0 |` (- {''age''})) c = r0 c"
    using f(3,6) by (simp add: coerce_row_def of_Int64_def restrict_map_def)
  show ?thesis
    by (intro exI [of _ b0] exI [of _ y] conjI f(1) f(2) f(3) c1 c2 f(9) exact c3)
qed

lemma raw_frame_rows:
  "raw_frame (df\<lparr>rows := rs\<rparr>) = (columns df = column_names \<and> list_all raw_record rs)"
  by (simp add: raw_frame_def)

lemma placeholder_not_valid:
  assumes "r ''Age_year'' = Some (Text ''????'')"
  shows "Age_year_of r = None" and "age_of r = None" and "\<not> valid_age r"
proof -
  show a: "Age_year_of r = None"
    using assms by (simp add: Age_year_of_def cell_def to_numeric_def as_Int64_def digit_def)
  then show b: "age_of r = None"
    by (simp add: age_of_def sub64_def split: option.splits)
  then show "\<not> valid_age r" by (simp add: valid_age_def)
qed


lemma raw_frame_two_runners: "raw_frame two_runners"
  by (simp add: raw_frame_def two_runners_def raw_record_def ann_def jane_def year_shape_def
      digit_def int64_def)

subsection \<open>The frames that the extractor builds are raw frames\<close>

lemma new_row_raw:
  assumes "re_match runner = Some row" and "int64 year"
  shows "raw_frame (new_row row url year)"
proof -
  from re_match_Some [OF assms(1)] obtain s' where "(s', row) \<in> set (matches pattern (runner, []))" ..
  from pattern_groups [OF this] obtain c r f y l where
    sh: "year_shape y"
    and row: "row = [(''Location'', l), (''Age_year'', y), (''Fullname'', f), (''Rang'', r),
                     (''Category'', c)]
              \<or> (\<exists>t. time_shape t \<and>
                    row = [(''total_time'', t), (''Location'', l), (''Age_year'', y),
                           (''Fullname'', f), (''Rang'', r), (''Category'', c)])"
    by blast
  from row have "group_cell row ''Age_year'' = Text y" by (auto simp: group_cell_def)
  with sh assms(2) show ?thesis
    by (simp add: raw_frame_def new_row_def raw_record_def)
qed

lemma concat_raw:
  assumes "raw_frame a" and "raw_frame b"
  shows "raw_frame (concat_frames a b)"
  using assms by (simp add: raw_frame_def concat_frames_def)

lemma runners_loop_raw:
  "int64 year \<Longrightarrow> raw_frame df \<Longrightarrow> raw_frame (runners_loop url year runners df)"
proof (induction runners arbitrary: df)
  case Nil
  then show ?case by simp
next
  case (Cons runner rest)
  show ?case
  proof (cases "re_match runner")
    case None
    with Cons show ?thesis by simp
  next
    case (Some row)
    from new_row_raw [OF Some Cons.prems(1)] Cons.prems(2)
    have "raw_frame (concat_frames (new_row row url year) df)" by (rule concat_raw)
    from Cons.IH [OF Cons.prems(1) this] Some show ?thesis by simp
  qed
qed

lemma pages_loop_raw:
  "list_all (\<lambda>(url, year, page). int64 year) pages \<Longrightarrow> raw_frame df \<Longrightarrow>
     raw_frame (pages_loop pages df)"
  by (induction pages df rule: pages_loop.induct) (simp_all add: runners_loop_raw)

lemma scrape_raw_frame:
  "list_all (\<lambda>(url, year, page). int64 year) pages \<Longrightarrow> raw_frame (scrape_runners_data pages)"
  unfolding scrape_runners_data_def
  by (rule pages_loop_raw) (simp_all add: raw_frame_def)

section \<open>Lemmas about the dashboard\<close>

subsection \<open>The text of an integer\<close>

lemma digit_char_digit: "d < 10 \<Longrightarrow> digit (digit_char d)"
proof -
  assume "d < 10"
  then have "d \<in> {0, 1, 2, 3, 4, 5, 6, 7, 8, 9}" by auto
  then show ?thesis by (auto simp: digit_char_def digit_def char_of_eq_iff)
qed

lemma digit_char_val: "d < 10 \<Longrightarrow> int (of_char (digit_char d)) - 48 = int d"
  by (simp add: digit_char_def)

lemma int_of_digits_snoc:
  "int_of_digits (xs @ [c]) = 10 * int_of_digits xs + (int (of_char c) - 48)"
  by (simp add: int_of_digits_def)

lemma int_of_digits_str_nat: "int_of_digits (str_nat n) = int n"
proof (induction n rule: str_nat.induct)
  case (1 n)
  show ?case
  proof (cases "n < 10")
    case True
    then show ?thesis
      by (subst str_nat.simps) (simp add: int_of_digits_def digit_char_val)
  next
    case False
    have "int_of_digits (str_nat n) = 10 * int_of_digits (str_nat (n div 10))
            + (int (of_char (digit_char (n mod 10))) - 48)"
      using False by (subst str_nat.simps) (simp add: int_of_digits_snoc)
    also have "\<dots> = 10 * int (n div 10) + int (n mod 10)"
      using 1 [OF False] by (simp add: digit_char_val)
    also have "\<dots> = int (10 * (n div 10) + n mod 10)"
      by (simp only: of_nat_add of_nat_mult of_nat_numeral)
    also have "\<dots> = int n" by simp
    finally show ?thesis .
  qed
qed

lemma str_nat_digits: "list_all digit (str_nat n)"
proof (induction n rule: str_nat.induct)
  case (1 n)
  show ?case
  proof (cases "n < 10")
    case True
    then show ?thesis by (subst str_nat.simps) (simp add: digit_char_digit)
  next
    case False
    then show ?thesis using 1 [OF False] by (subst str_nat.simps) (simp add: digit_char_digit)
  qed
qed

lemma str_nat_nonempty: "str_nat n \<noteq> []"
  by (subst str_nat.simps) simp

lemma str_nat_inj:
  assumes "str_nat m = str_nat n"
  shows "m = n"
proof -
  from assms have "int_of_digits (str_nat m) = int_of_digits (str_nat n)" by (rule arg_cong)
  then show ?thesis by (simp only: int_of_digits_str_nat of_nat_eq_iff)
qed

lemma str_nat_no_minus: "CHR ''-'' # w \<noteq> str_nat n"
proof
  assume "CHR ''-'' # w = str_nat n"
  with str_nat_digits [of n] have "list_all digit (CHR ''-'' # w)" by simp
  then have "digit CHR ''-''" by simp
  then show False by (simp add: digit_def)
qed

lemma str_int_inj: "(str_int a = str_int b) = (a = b)"
proof
  assume eq: "str_int a = str_int b"
  show "a = b"
  proof (cases "a < 0"; cases "b < 0")
    assume "a < 0" "b < 0"
    with eq have "str_nat (nat (- a)) = str_nat (nat (- b))" by (simp add: str_int_def)
    from str_nat_inj [OF this] \<open>a < 0\<close> \<open>b < 0\<close> show ?thesis by simp
  next
    assume "a < 0" "\<not> b < 0"
    with eq str_nat_no_minus show ?thesis by (simp add: str_int_def)
  next
    assume "\<not> a < 0" "b < 0"
    with eq str_nat_no_minus [of "str_nat (nat (- b))" "nat a"] show ?thesis
      by (simp add: str_int_def)
  next
    assume "\<not> a < 0" "\<not> b < 0"
    with eq have "str_nat (nat a) = str_nat (nat b)" by (simp add: str_int_def)
    from str_nat_inj [OF this] \<open>\<not> a < 0\<close> \<open>\<not> b < 0\<close> show ?thesis by simp
  qed
qed simp

lemma str_int_2014: "str_int 2014 = ''2014''"
  by code_simp

subsection \<open>Loading and filtering\<close>

lemma update_rows:
  "update_chart_and_table df df2 years groups =
     (df2\<lparr>rows := filter (passes years groups) (rows df2)\<rparr>,
      filter (passes years groups) (rows df))"
proof -
  have f: "filter P (filter Q xs) = filter (\<lambda>x. Q x \<and> P x) xs" for P Q and xs :: "row list"
    by (induction xs) auto
  show ?thesis
    by (cases "selected years = []"; cases "selected groups = []")
      (simp_all add: update_chart_and_table_def isin_rows_def truthy_def passes_def [abs_def] f)
qed

lemma numeric_column_ok:
  "list_all (\<lambda>v. case v of Text s \<Rightarrow> False | _ \<Rightarrow> True) vs \<Longrightarrow>
     numeric_column vs = Inr (map as_Int64 vs)"
  by (induction vs) (auto simp: as_Int64_def split: cell.splits)

lemma cleaned_record_cells:
  assumes "cleaned_record r"
  obtains b y where "r ''Age_year'' = Some (Num b)" "r ''run_year'' = Some (Num y)"
proof -
  from assms have "\<exists>b y. r ''Age_year'' = Some (Num b) \<and> r ''run_year'' = Some (Num y)"
    by (cases "r ''Age_year''"; cases "r ''run_year''";
        simp add: cleaned_record_def split: cell.splits)
  with that show thesis by blast
qed

lemma add_age_cleaned:
  assumes "cleaned_frame df"
  shows "add_age_columns df =
           Inr \<lparr>columns =
                  (if ''age_group'' \<in> set (if ''age'' \<in> set (columns df) then columns df
                                           else columns df @ [''age''])
                   then (if ''age'' \<in> set (columns df) then columns df else columns df @ [''age''])
                   else (if ''age'' \<in> set (columns df) then columns df else columns df @ [''age''])
                          @ [''age_group'']),
                rows = map with_age (rows df)\<rparr>"
proof -
  let ?rs = "rows df"
  from assms have ca: "''Age_year'' \<in> set (columns df)" and cr: "''run_year'' \<in> set (columns df)"
    and cl: "\<forall>r \<in> set ?rs. cleaned_record r"
    by (simp_all add: cleaned_frame_def list_all_iff)
  have g1: "getitem df ''run_year'' = Inr (map (\<lambda>r. cell r ''run_year'') ?rs)"
    using cr by (simp add: getitem_def)
  have g2: "getitem df ''Age_year'' = Inr (map (\<lambda>r. cell r ''Age_year'') ?rs)"
    using ca by (simp add: getitem_def)
  have n1: "numeric_column (map (\<lambda>r. cell r ''run_year'') ?rs)
              = Inr (map (\<lambda>r. as_Int64 (cell r ''run_year'')) ?rs)"
  proof -
    have "list_all (\<lambda>v. case v of Text s \<Rightarrow> False | _ \<Rightarrow> True) (map (\<lambda>r. cell r ''run_year'') ?rs)"
      unfolding list_all_iff
    proof
      fix v assume "v \<in> set (map (\<lambda>r. cell r ''run_year'') ?rs)"
      then obtain r where "r \<in> set ?rs" "v = cell r ''run_year''" by auto
      with cl have "cleaned_record r" by blast
      then obtain b y where "r ''run_year'' = Some (Num y)" by (rule cleaned_record_cells)
      with \<open>v = cell r ''run_year''\<close> show "case v of Text s \<Rightarrow> False | _ \<Rightarrow> True"
        by (simp add: cell_def)
    qed
    from numeric_column_ok [OF this] show ?thesis by (simp add: comp_def)
  qed
  have n2: "numeric_column (map (\<lambda>r. cell r ''Age_year'') ?rs)
              = Inr (map (\<lambda>r. as_Int64 (cell r ''Age_year'')) ?rs)"
  proof -
    have "list_all (\<lambda>v. case v of Text s \<Rightarrow> False | _ \<Rightarrow> True) (map (\<lambda>r. cell r ''Age_year'') ?rs)"
      unfolding list_all_iff
    proof
      fix v assume "v \<in> set (map (\<lambda>r. cell r ''Age_year'') ?rs)"
      then obtain r where "r \<in> set ?rs" "v = cell r ''Age_year''" by auto
      with cl have "cleaned_record r" by blast
      then obtain b y where "r ''Age_year'' = Some (Num b)" by (rule cleaned_record_cells)
      with \<open>v = cell r ''Age_year''\<close> show "case v of Text s \<Rightarrow> False | _ \<Rightarrow> True"
        by (simp add: cell_def)
    qed
    from numeric_column_ok [OF this] show ?thesis by (simp add: comp_def)
  qed
  let ?age = "\<lambda>r. sub64 (as_Int64 (cell r ''run_year'')) (as_Int64 (cell r ''Age_year''))"
  have age: "map2 sub64 (map (\<lambda>r. as_Int64 (cell r ''run_year'')) ?rs)
                        (map (\<lambda>r. as_Int64 (cell r ''Age_year'')) ?rs) = map ?age ?rs"
    by (simp add: zip_map_same)
  let ?c1 = "if ''age'' \<in> set (columns df) then columns df else columns df @ [''age'']"
  let ?df1 = "\<lparr>columns = ?c1, rows = map (\<lambda>r. r(''age'' \<mapsto> of_Int64 (?age r))) ?rs\<rparr>"
  have s1: "setitem df ''age'' (map of_Int64 (map ?age ?rs)) = ?df1"
    using setitem_map [of df "''age''" "\<lambda>r. of_Int64 (?age r)"] by (simp add: comp_def)
  let ?c2 = "if ''age_group'' \<in> set ?c1 then ?c1 else ?c1 @ [''age_group'']"
  have s2: "setitem ?df1 ''age_group'' (map apply_set_age_group (map ?age ?rs))
              = \<lparr>columns = ?c2, rows = map with_age ?rs\<rparr>"
    using setitem_map_rows [of ?df1 "\<lambda>r. r(''age'' \<mapsto> of_Int64 (?age r))" ?rs "''age_group''"
        "\<lambda>r. apply_set_age_group (?age r)"]
    by (simp add: comp_def with_age_def Let_def)
  show ?thesis
    unfolding add_age_columns_def
    by (simp only: g1 g2 n1 n2 age s1 s2 Let_def sum.case)
qed

subsection \<open>Counting by key\<close>

lemma length_filter_disjoint:
  "(\<And>x. x \<in> set xs \<Longrightarrow> \<not> (P x \<and> Q x)) \<Longrightarrow>
     length (filter P xs) + length (filter Q xs) = length (filter (\<lambda>x. P x \<or> Q x) xs)"
  by (induction xs) auto

lemma count_by_key:
  "distinct ks \<Longrightarrow>
     (\<Sum>k\<leftarrow>ks. int (length (filter (\<lambda>r. f r = Some k) rs)))
       = int (length (filter (\<lambda>r. f r \<in> Some ` set ks) rs))"
proof (induction ks)
  case Nil
  then show ?case by simp
next
  case (Cons k ks)
  from Cons.prems have nk: "k \<notin> set ks" and d: "distinct ks" by simp_all
  have ih: "(\<Sum>k\<leftarrow>ks. int (length (filter (\<lambda>r. f r = Some k) rs)))
       = int (length (filter (\<lambda>r. f r \<in> Some ` set ks) rs))"
    by (rule Cons.IH [OF d])
  have dis: "length (filter (\<lambda>r. f r = Some k) rs) + length (filter (\<lambda>r. f r \<in> Some ` set ks) rs)
          = length (filter (\<lambda>r. f r = Some k \<or> f r \<in> Some ` set ks) rs)"
  proof (rule length_filter_disjoint)
    fix x show "\<not> (f x = Some k \<and> f x \<in> Some ` set ks)"
    proof (rule notI, elim conjE)
      assume a: "f x = Some k" and b: "f x \<in> Some ` set ks"
      from b have "Some k \<in> Some ` set ks" unfolding a .
      then obtain k' where "k' \<in> set ks" and "Some k = Some k'" by (rule imageE)
      then have "k \<in> set ks" by simp
      with nk show False ..
    qed
  qed
  have eq: "filter (\<lambda>r. f r = Some k \<or> f r \<in> Some ` set ks) rs
              = filter (\<lambda>r. f r \<in> Some ` set (k # ks)) rs"
  proof (rule filter_cong [OF refl])
    fix x show "(f x = Some k \<or> f x \<in> Some ` set ks) = (f x \<in> Some ` set (k # ks))"
      by (simp only: list.set image_insert insert_iff)
  qed
  have "(\<Sum>k\<leftarrow>k # ks. int (length (filter (\<lambda>r. f r = Some k) rs)))
          = int (length (filter (\<lambda>r. f r = Some k) rs))
            + int (length (filter (\<lambda>r. f r \<in> Some ` set ks) rs))"
    by (simp only: list.map sum_list.Cons ih)
  also have "\<dots> = int (length (filter (\<lambda>r. f r = Some k \<or> f r \<in> Some ` set ks) rs))"
    by (simp only: dis [symmetric] of_nat_add)
  finally show ?case by (simp only: eq)
qed

lemma filter_eq_distinct:
  "distinct xs \<Longrightarrow> x \<in> set xs \<Longrightarrow> length (filter (\<lambda>y. y = x) xs) = 1"
  by (induction xs) (auto simp: filter_empty_conv)

lemma group_keys_distinct: "distinct (group_keys rs)"
  by (simp add: group_keys_def)

lemma set_map_filter_Some: "set (List.map_filter f xs) = {y. \<exists>x \<in> set xs. f x = Some y}"
  by (induction xs) (auto split: option.splits)

lemma set_group_keys: "set (group_keys rs) = {k. \<exists>r \<in> set rs. group_key r = Some k}"
  by (simp add: group_keys_def set_map_filter_Some)

lemma group_key_cells:
  assumes "group_key r = Some k"
  shows "cell r ''run_year'' = Num (fst k)" and "cell r ''age_group'' = Text (snd k)"
  using assms by (auto simp: group_key_def split: cell.splits)

lemma group_row_cells:
  "cell (group_row rs k) ''run_year'' = Num (fst k)"
  "cell (group_row rs k) ''age_group'' = Text (snd k)"
  "cell (group_row rs k) ''Count athletes'' = Num (int (length (filter (\<lambda>r. group_key r = Some k) rs)))"
  by (simp_all add: group_row_def cell_def)

lemma passes_group_row:
  assumes "group_key r = Some k"
  shows "passes years groups (group_row rs k) = passes years groups r"
  using group_key_cells [OF assms]
  by (simp add: passes_def run_year_str_def age_group_of_def group_row_cells)

lemma with_age_key:
  assumes "cleaned_record r"
  shows "\<exists>b y. r ''Age_year'' = Some (Num b) \<and> r ''run_year'' = Some (Num y)
           \<and> with_age r ''age'' = Some (Num (wrap64 (y - b)))
           \<and> with_age r ''age_group'' = Some (Text (set_age_group (wrap64 (y - b))))
           \<and> group_key (with_age r) = Some (y, set_age_group (wrap64 (y - b)))"
proof -
  from assms obtain b y where c: "r ''Age_year'' = Some (Num b)" "r ''run_year'' = Some (Num y)"
    by (rule cleaned_record_cells)
  have age: "sub64 (as_Int64 (cell r ''run_year'')) (as_Int64 (cell r ''Age_year'')) = Some (wrap64 (y - b))"
    using c by (simp add: cell_def as_Int64_def sub64_def)
  have a1: "with_age r ''age'' = Some (Num (wrap64 (y - b)))"
    by (simp add: with_age_def age of_Int64_def Let_def)
  have a2: "with_age r ''age_group'' = Some (Text (set_age_group (wrap64 (y - b))))"
    by (simp add: with_age_def age apply_set_age_group_def Let_def)
  have a3: "with_age r ''run_year'' = Some (Num y)"
    using c by (simp add: with_age_def age Let_def)
  have a4: "group_key (with_age r) = Some (y, set_age_group (wrap64 (y - b)))"
    using a2 a3 by (simp add: group_key_def cell_def)
  show ?thesis by (intro exI [of _ b] exI [of _ y] conjI c a1 a2 a4)
qed

lemma sum_counts_filtered:
  assumes "\<forall>r \<in> set rs. group_key r \<noteq> None"
  shows "sum_counts \<lparr>columns = cs, rows = filter (passes years groups) (map (group_row rs) (group_keys rs))\<rparr>
           = int (length (filter (passes years groups) rs))"
proof -
  let ?ks = "group_keys rs"
  let ?Q = "\<lambda>k. passes years groups (group_row rs k)"
  have "sum_counts \<lparr>columns = cs, rows = filter (passes years groups) (map (group_row rs) ?ks)\<rparr>
          = (\<Sum>k\<leftarrow>filter ?Q ?ks. int (length (filter (\<lambda>r. group_key r = Some k) rs)))"
    by (simp add: sum_counts_def filter_map comp_def group_row_cells)
  also have "\<dots> = int (length (filter (\<lambda>r. group_key r \<in> Some ` set (filter ?Q ?ks)) rs))"
    by (rule count_by_key) (simp add: group_keys_distinct)
  also have "filter (\<lambda>r. group_key r \<in> Some ` set (filter ?Q ?ks)) rs = filter (passes years groups) rs"
  proof (rule filter_cong [OF refl])
    fix r assume r: "r \<in> set rs"
    with assms obtain k where k: "group_key r = Some k" by auto
    with r have "k \<in> set ?ks" by (auto simp: set_group_keys)
    with k passes_group_row [OF k, of years groups rs]
    show "(group_key r \<in> Some ` set (filter ?Q ?ks)) = passes years groups r" by auto
  qed
  finally show ?thesis .
qed

lemma passes_None: "passes None None r" "passes (Some []) (Some []) r"
  by (simp_all add: passes_def selected_def)

lemma loaded_rows:
  assumes "cleaned_frame db" and "add_age_columns db = Inr df"
  shows "rows df = map with_age (rows db)" and "\<forall>r \<in> set (rows df). group_key r \<noteq> None"
proof -
  from add_age_cleaned [OF assms(1)] assms(2) show r: "rows df = map with_age (rows db)" by auto
  from assms(1) have cl: "\<forall>r \<in> set (rows db). cleaned_record r"
    by (simp add: cleaned_frame_def list_all_iff)
  show "\<forall>r \<in> set (rows df). group_key r \<noteq> None"
  proof
    fix r assume "r \<in> set (rows df)"
    with r obtain r0 where "r0 \<in> set (rows db)" and "r = with_age r0" by auto
    with cl with_age_key [of r0] show "group_key r \<noteq> None" by auto
  qed
qed

lemma one_group:
  assumes "group_key r = Some k" and "r \<in> set rs"
  shows "length (filter (\<lambda>g. cell g ''run_year'' = cell r ''run_year''
                            \<and> cell g ''age_group'' = cell r ''age_group'')
                        (map (group_row rs) (group_keys rs))) = 1"
proof -
  have k: "k \<in> set (group_keys rs)" using assms by (auto simp: set_group_keys)
  have "filter (\<lambda>k'. cell (group_row rs k') ''run_year'' = cell r ''run_year''
                      \<and> cell (group_row rs k') ''age_group'' = cell r ''age_group'') (group_keys rs)
          = filter (\<lambda>k'. k' = k) (group_keys rs)"
    by (rule filter_cong [OF refl])
      (auto simp: group_row_cells group_key_cells [OF assms(1)] prod_eq_iff)
  then show ?thesis
    using filter_eq_distinct [OF group_keys_distinct k]
    by (simp add: filter_map comp_def)
qed

lemma cleaned_frame_example: "cleaned_frame cleaned_example"
  by (simp add: cleaned_frame_def cleaned_example_def cleaned_record_def column_names_def
      jane_def ann_def)

lemma add_age_example: "add_age_columns cleaned_example = Inr loaded_example"
  using add_age_cleaned [OF cleaned_frame_example]
  by (simp add: loaded_example_def cleaned_example_def column_names_def)

lemma example_selection:
  "length (snd (update_chart_and_table loaded_example (groupby_size loaded_example)
                         (Some [''2020'']) (Some [''30-40'']))) = 1"
  by code_simp

lemma example_table:
  "table (fst (update_chart_and_table loaded_example (groupby_size loaded_example)
                         (Some [''2020'']) None))
     = [[Num 2020, Text ''0-20'', Num 1], [Num 2020, Text ''30-40'', Num 1]]"
  by code_simp

subsection \<open>From the normalizer to the dashboard\<close>

lemma clean_output_cleaned:
  assumes "raw_frame df"
  shows "cleaned_frame \<lparr>columns = column_names,
           rows = map (\<lambda>r. coerce_row r |` (- {''age''})) (filter valid_age (rows df))\<rparr>"
proof -
  let ?f = "\<lambda>r. coerce_row r |` (- {''age''})"
  from assms have raw: "\<forall>r \<in> set (rows df). raw_record r"
    by (simp add: raw_frame_def list_all_iff)
  have "list_all cleaned_record (map ?f (filter valid_age (rows df)))"
    unfolding list_all_iff
  proof (rule ballI)
    fix r assume "r \<in> set (map ?f (filter valid_age (rows df)))"
    then have "r \<in> ?f ` set (filter valid_age (rows df))" by (simp only: set_map)
    then obtain r0 where r0: "r0 \<in> set (filter valid_age (rows df))" and r: "r = ?f r0" ..
    from r0 have in_df: "r0 \<in> set (rows df)" and valid: "valid_age r0" by simp_all
    from raw in_df have "raw_record r0" ..
    from clean_output_row [OF this valid] obtain b0 y where
      "?f r0 ''Age_year'' = Some (Num (int_of_digits b0))" and "?f r0 ''run_year'' = Some (Num y)"
      by (elim exE conjE) (rule that, assumption+)
    then show "cleaned_record r"
      unfolding r cleaned_record_def by (simp only: prod.case option.case cell.case)
  qed
  moreover have "''Age_year'' \<in> set column_names" "''run_year'' \<in> set column_names"
    by (simp_all add: column_names_def)
  ultimately show ?thesis
    unfolding cleaned_frame_def by (simp only: frame.select_convs simp_thms)
qed

subsection \<open>The rank\<close>

lemma rank_examples:
  "map_option (\<lambda>row. map_of row ''Rang'') (re_match ''M40 123. Jane Doe 1980 Zurich 3:45:10 0:12 (55)'') = Some (Some ''123'')"
  "map_option (\<lambda>row. map_of row ''Rang'') (re_match ''M40 DNF Jane Doe 1980 Zurich 3:45:10 0:12 (55)'') = Some (Some ''DNF'')"
  "map_option (\<lambda>row. map_of row ''Rang'') (re_match ''M40 DNF. Jane Doe 1980 Zurich 3:45:10 0:12 (55)'') = Some (Some ''DNF'')"
  "map_option (\<lambda>row. map_of row ''Rang'') (re_match ''M40 DSQ Jane Doe 1980 Zurich 3:45:10 0:12 (55)'') = Some (Some ''DSQ'')"
  "map_option (\<lambda>row. map_of row ''Rang'') (re_match ''M40 OUT Jane Doe 1980 Zurich 3:45:10 0:12 (55)'') = Some (Some ''OUT'')"
  "re_match ''M40 DNS Jane Doe 1980 Zurich 3:45:10 0:12 (55)'' = None"
  "re_match ''M40 DNFDSQ Jane Doe 1980 Zurich 3:45:10 0:12 (55)'' = None"
  "map_sum id table (dashboard_frame (scrape_runners_data [(''alfaj.htm'', 2020, Some [''M40 DNF Jane Doe 1980 Zurich 3:45:10 0:12 (55)''])])) =
       Inr [[Text ''M40'', Text ''DNF'', Text ''Jane Doe'', Num 1980, Text ''Zurich'',
             Text ''3:45:10'', Text ''alfaj.htm'', Num 2020, Num 40, Text ''30-40'']]"
  by code_simp+

lemma rang_shape_no_period:
  assumes "rang_shape w"
  shows "CHR ''.'' \<notin> set w"
proof -
  have nd: "\<not> digit CHR ''.''" by (simp add: digit_def)
  from assms consider "list_all digit w" | "w = ''DNF''" | "w = ''DSQ''" | "w = ''OUT''"
    unfolding rang_shape_def by blast
  then show ?thesis
  proof cases
    case 1
    show ?thesis
    proof
      assume "CHR ''.'' \<in> set w"
      with 1 have "digit CHR ''.''" unfolding list_all_iff ..
      with nd show False ..
    qed
  next
    case 2
    show ?thesis unfolding 2 by simp
  next
    case 3
    show ?thesis unfolding 3 by simp
  next
    case 4
    show ?thesis unfolding 4 by simp
  qed
qed

lemma re_match_Rang:
  assumes "re_match runner = Some row"
  shows "\<exists>w. map_of row ''Rang'' = Some w \<and> rang_shape w \<and> CHR ''.'' \<notin> set w"
proof -
  from re_match_Some [OF assms] obtain s' where "(s', row) \<in> set (matches pattern (runner, []))" ..
  from pattern_groups [OF this] obtain c r f y l where
    sh: "rang_shape r"
    and row: "row = [(''Location'', l), (''Age_year'', y), (''Fullname'', f), (''Rang'', r),
                     (''Category'', c)]
              \<or> (\<exists>t. time_shape t \<and>
                    row = [(''total_time'', t), (''Location'', l), (''Age_year'', y),
                           (''Fullname'', f), (''Rang'', r), (''Category'', c)])"
    by blast
  from row have "map_of row ''Rang'' = Some r" by auto
  with sh rang_shape_no_period [OF sh] show ?thesis by blast
qed

lemma rank_irrelevant:
  "raw_record (r(''Rang'' \<mapsto> v)) = raw_record r"
  "valid_age (r(''Rang'' \<mapsto> v)) = valid_age r"
  "coerce_row (r(''Rang'' \<mapsto> v)) |` (- {''age''}) = (coerce_row r |` (- {''age''}))(''Rang'' \<mapsto> v)"
proof -
  show "raw_record (r(''Rang'' \<mapsto> v)) = raw_record r" by (simp add: raw_record_def)
  have a: "Age_year_of (r(''Rang'' \<mapsto> v)) = Age_year_of r"
    and y: "run_year_of (r(''Rang'' \<mapsto> v)) = run_year_of r"
    by (simp_all add: Age_year_of_def run_year_of_def cell_def)
  then have g: "age_of (r(''Rang'' \<mapsto> v)) = age_of r" by (simp add: age_of_def)
  then show "valid_age (r(''Rang'' \<mapsto> v)) = valid_age r" by (simp add: valid_age_def)
  show "coerce_row (r(''Rang'' \<mapsto> v)) |` (- {''age''}) = (coerce_row r |` (- {''age''}))(''Rang'' \<mapsto> v)"
    by (rule ext) (simp add: coerce_row_def a y g restrict_map_def)
qed

lemma clean_ignores_rank:
  assumes "raw_frame df"
  shows "\<exists>out out'. snd (clean_runners_data df) = Inr out
     \<and> snd (clean_runners_data (df\<lparr>rows := map (\<lambda>r. r(''Rang'' \<mapsto> f r)) (rows df)\<rparr>)) = Inr out'
     \<and> rows out = map (\<lambda>r. coerce_row r |` (- {''age''})) (filter valid_age (rows df))
     \<and> rows out' = map (\<lambda>r. (coerce_row r |` (- {''age''}))(''Rang'' \<mapsto> f r))
                        (filter valid_age (rows df))"
proof -
  let ?df' = "df\<lparr>rows := map (\<lambda>r. r(''Rang'' \<mapsto> f r)) (rows df)\<rparr>"
  have raw': "raw_frame ?df'"
    using assms by (simp add: raw_frame_def list_all_iff rank_irrelevant(1))
  have rows': "map (\<lambda>r. coerce_row r |` (- {''age''})) (filter valid_age (rows ?df'))
                 = map (\<lambda>r. (coerce_row r |` (- {''age''}))(''Rang'' \<mapsto> f r))
                        (filter valid_age (rows df))"
    by (simp add: filter_map comp_def rank_irrelevant(2,3))
  have 1: "snd (clean_runners_data df) = Inr \<lparr>columns = column_names,
           rows = map (\<lambda>r. coerce_row r |` (- {''age''})) (filter valid_age (rows df))\<rparr>"
    by (simp only: clean_raw [OF assms] snd_conv)
  have 2: "snd (clean_runners_data ?df') = Inr \<lparr>columns = column_names,
           rows = map (\<lambda>r. (coerce_row r |` (- {''age''}))(''Rang'' \<mapsto> f r))
                        (filter valid_age (rows df))\<rparr>"
    by (simp only: clean_raw [OF raw'] snd_conv rows')
  show ?thesis
    by (rule exI, rule exI, intro conjI, rule 1, rule 2) simp_all
qed

subsection \<open>Every rank of the right form is accepted\<close>

lemma pattern_split:
  "pattern = Seq (Grp ''Category'' category) (Seq spaces (Seq (Grp ''Rang'' rang)
               (Seq period after_rank)))"
  by (simp add: pattern_def after_rank_def period_def)

lemma first_match_Some_iff: "(first_match r x = Some y) = (\<exists>ys. matches r x = y # ys)"
  by (auto simp: first_match_def split: list.splits)

lemma first_match_in: "first_match r x = Some y \<Longrightarrow> y \<in> set (matches r x)"
  by (auto simp: first_match_Some_iff)

lemma first_Seq:
  assumes "first_match a x = Some y" and "first_match b y = Some z"
  shows "first_match (Seq a b) x = Some z"
proof -
  from assms obtain ys zs where "matches a x = y # ys" "matches b y = z # zs"
    by (auto simp: first_match_Some_iff)
  then have "matches (Seq a b) x = z # (zs @ concat (map (matches b) ys))" by simp
  then show ?thesis by (simp add: first_match_Some_iff)
qed

lemma first_Grp:
  assumes "first_match r (s, g) = Some (s', g')"
  shows "first_match (Grp n r) (s, g) = Some (s', (n, take (length s - length s') s) # g')"
proof -
  from assms obtain ys where "matches r (s, g) = (s', g') # ys"
    by (auto simp: first_match_Some_iff)
  then show ?thesis by (simp add: first_match_Some_iff)
qed

lemma first_Alt_left:
  assumes "first_match a x = Some z"
  shows "first_match (Alt a b) x = Some z"
  using assms by (auto simp: first_match_Some_iff)

lemma first_Alt_right:
  assumes "matches a x = []" and "first_match b x = Some z"
  shows "first_match (Alt a b) x = Some z"
  using assms by (auto simp: first_match_Some_iff)

lemma takeWhile_run:
  assumes "list_all c w" and "s = [] \<or> \<not> c (hd s)"
  shows "takeWhile c (w @ s) = w"
proof -
  have "takeWhile c s = []" using assms(2) by (cases s) auto
  with assms(1) show ?thesis by (simp add: list_all_iff takeWhile_append2)
qed

lemma first_rep1:
  assumes "list_all c w" and "w \<noteq> []" and "s = [] \<or> \<not> c (hd s)"
  shows "first_match (rep1 c) (w @ s, g) = Some (s, g)"
proof -
  have n: "run_length c None (w @ s) = length w"
    by (simp add: run_length_def takeWhile_run [OF assms(1,3)])
  from assms(2) have "0 < length w" by simp
  then obtain k where k: "length w = Suc k" by (cases "length w") auto
  have "counts True 1 (length w) = length w # rev [1..<length w]"
    by (simp add: counts_def k)
  then have "matches (rep1 c) (w @ s, g)
               = (s, g) # map (\<lambda>i. (drop i (w @ s), g)) (rev [1..<length w])"
    by (simp add: rep1_def n)
  then show ?thesis by (simp add: first_match_Some_iff)
qed

lemma matches_rep1_none:
  assumes "s = [] \<or> \<not> c (hd s)"
  shows "matches (rep1 c) (s, g) = []"
proof -
  have "takeWhile c s = []" using assms by (cases s) auto
  then show ?thesis by (simp add: rep1_def run_length_def counts_def)
qed

lemma matches_lit_same: "matches (lit a) (a # s, g) = [(s, g)]"
  by (simp add: lit_def run_length_def counts_def)

lemma matches_lit_other: "a \<noteq> b \<Longrightarrow> matches (lit a) (b # s, g) = []"
  by (simp add: lit_def run_length_def counts_def)

lemma matches_literal3_same: "matches (literal [a, b, c]) (a # b # c # s, g) = [(s, g)]"
  by (simp add: literal_def matches_lit_same)

lemma first_period:
  "first_match period (CHR ''.'' # s, g) = Some (s, g)"
  "first_match period (CHR '' '' # s, g) = Some (CHR '' '' # s, g)"
  by (simp_all add: period_def first_match_def run_length_def counts_def)

lemma matches_extend:
  "(s', g') \<in> set (matches r (s, g)) \<Longrightarrow> \<exists>pre. g' = pre @ g"
proof (induction r arbitrary: s g s' g')
  case Eps
  then show ?case by simp
next
  case (Rep greedy lo hi c)
  then show ?case by auto
next
  case (Seq a b)
  then obtain t h where 1: "(t, h) \<in> set (matches a (s, g))" and 2: "(s', g') \<in> set (matches b (t, h))"
    by auto
  from Seq.IH(1) [OF 1] obtain p where "h = p @ g" ..
  moreover from Seq.IH(2) [OF 2] obtain q where "g' = q @ h" ..
  ultimately have "g' = (q @ p) @ g" by simp
  then show ?case ..
next
  case (Alt a b)
  from Alt.prems consider "(s', g') \<in> set (matches a (s, g))" | "(s', g') \<in> set (matches b (s, g))"
    by auto
  then show ?case
  proof cases
    case 1
    from Alt.IH(1) [OF 1] show ?thesis .
  next
    case 2
    from Alt.IH(2) [OF 2] show ?thesis .
  qed
next
  case (Grp n r)
  from Grp.prems obtain g0 where m: "(s', g0) \<in> set (matches r (s, g))"
    and g': "g' = (n, take (length s - length s') s) # g0" by auto
  from Grp.IH [OF m] obtain p where "g0 = p @ g" ..
  with g' have "g' = ((n, take (length s - length s') s) # p) @ g" by simp
  then show ?case ..
qed

lemma first_rang:
  assumes "rang_shape rk" and "s = [] \<or> \<not> digit (hd s)"
  shows "first_match rang (rk @ s, g) = Some (s, g)"
proof -
  have nd: "\<not> digit CHR ''D''" "\<not> digit CHR ''O''" by (simp_all add: digit_def)
  from assms(1) consider "rk \<noteq> [] \<and> list_all digit rk" | "rk = ''DNF''" | "rk = ''DSQ''" | "rk = ''OUT''"
    unfolding rang_shape_def by blast
  then show ?thesis
  proof cases
    case 1
    then have "first_match (rep1 digit) (rk @ s, g) = Some (s, g)"
      using assms(2) by (intro first_rep1) simp_all
    then show ?thesis unfolding rang_def by (rule first_Alt_left)
  next
    case 2
    have a: "matches (rep1 digit) (rk @ s, g) = []"
      unfolding 2 by (rule matches_rep1_none) (simp add: nd)
    have "first_match (literal ''DNF'') (rk @ s, g) = Some (s, g)"
      unfolding 2 by (simp add: first_match_def matches_literal3_same)
    then have "first_match (Alt (literal ''DNF'') (Alt (literal ''DSQ'') (literal ''OUT''))) (rk @ s, g)
                 = Some (s, g)" by (rule first_Alt_left)
    with a show ?thesis unfolding rang_def by (rule first_Alt_right)
  next
    case 3
    have a: "matches (rep1 digit) (rk @ s, g) = []"
      unfolding 3 by (rule matches_rep1_none) (simp add: nd)
    have b: "matches (literal ''DNF'') (rk @ s, g) = []"
      unfolding 3 by (simp add: literal_def matches_lit_same matches_lit_other)
    have "first_match (literal ''DSQ'') (rk @ s, g) = Some (s, g)"
      unfolding 3 by (simp add: first_match_def matches_literal3_same)
    then have "first_match (Alt (literal ''DSQ'') (literal ''OUT'')) (rk @ s, g) = Some (s, g)"
      by (rule first_Alt_left)
    with b have "first_match (Alt (literal ''DNF'') (Alt (literal ''DSQ'') (literal ''OUT''))) (rk @ s, g)
                 = Some (s, g)" by (rule first_Alt_right)
    with a show ?thesis unfolding rang_def by (rule first_Alt_right)
  next
    case 4
    have a: "matches (rep1 digit) (rk @ s, g) = []"
      unfolding 4 by (rule matches_rep1_none) (simp add: nd)
    have b: "matches (literal ''DNF'') (rk @ s, g) = []"
      unfolding 4 by (simp add: literal_def matches_lit_other)
    have c: "matches (literal ''DSQ'') (rk @ s, g) = []"
      unfolding 4 by (simp add: literal_def matches_lit_other)
    have "first_match (literal ''OUT'') (rk @ s, g) = Some (s, g)"
      unfolding 4 by (simp add: first_match_def matches_literal3_same)
    with c have "first_match (Alt (literal ''DSQ'') (literal ''OUT'')) (rk @ s, g) = Some (s, g)"
      by (rule first_Alt_right)
    with b have "first_match (Alt (literal ''DNF'') (Alt (literal ''DSQ'') (literal ''OUT''))) (rk @ s, g)
                 = Some (s, g)" by (rule first_Alt_right)
    with a show ?thesis unfolding rang_def by (rule first_Alt_right)
  qed
qed

lemma rang_shape_hd:
  assumes "rang_shape rk"
  shows "rk \<noteq> []" and "hd rk \<noteq> CHR '' ''"
proof -
  from assms consider "rk \<noteq> [] \<and> list_all digit rk" | "rk = ''DNF''" | "rk = ''DSQ''" | "rk = ''OUT''"
    unfolding rang_shape_def by blast
  then have "rk \<noteq> [] \<and> hd rk \<noteq> CHR '' ''"
  proof cases
    case 1
    then obtain x xs where rk: "rk = x # xs" by (cases rk) auto
    with 1 have "digit x" by simp
    then have "x \<noteq> CHR '' ''" by (auto simp: digit_def)
    with rk show ?thesis by simp
  qed simp_all
  then show "rk \<noteq> []" and "hd rk \<noteq> CHR '' ''" by simp_all
qed

lemma lang_after_rank_space:
  assumes "w \<in> lang after_rank"
  shows "\<exists>w'. w = CHR '' '' # w'"
proof -
  from assms obtain u v where w: "w = u @ v" and u: "u \<in> lang spaces"
    by (auto simp: after_rank_def)
  from u have "u \<noteq> []" and "list_all (\<lambda>c. c = CHR '' '') u"
    by (simp_all add: spaces_def lang_rep1)
  then obtain u' where "u = CHR '' '' # u'" by (cases u) auto
  with w show ?thesis by simp
qed

lemma rank_accepted:
  assumes c: "category_shape c"
    and sp: "sp \<noteq> []" "list_all (\<lambda>x. x = CHR '' '') sp"
    and rk: "rang_shape rk"
    and d: "d = [] \<or> d = ''.''"
    and w: "w \<in> lang after_rank"
  shows "\<exists>row. re_match (c @ sp @ rk @ d @ w @ s') = Some row
           \<and> map_of row ''Rang'' = Some rk \<and> map_of row ''Category'' = Some c"
proof -
  let ?line = "c @ sp @ rk @ d @ w @ s'"
  let ?g1 = "[(''Category'', c)]"
  let ?g2 = "[(''Rang'', rk), (''Category'', c)]"
  from lang_after_rank_space [OF w] obtain w' where w': "w = CHR '' '' # w'" ..
  from sp obtain sp' where sp': "sp = CHR '' '' # sp'" by (cases sp) auto
  from c have c1: "c \<noteq> []" and c2: "list_all (\<lambda>x. x \<noteq> CHR '' '') c"
    by (simp_all add: category_shape_def)
  note rk1 = rang_shape_hd [OF rk]
  have "first_match (rep1 (\<lambda>x. x \<noteq> CHR '' '')) (c @ (sp @ rk @ d @ w @ s'), [])
          = Some (sp @ rk @ d @ w @ s', [])"
    using c2 c1 by (rule first_rep1) (simp add: sp')
  then have "first_match (Grp ''Category'' category) (c @ (sp @ rk @ d @ w @ s'), [])
          = Some (sp @ rk @ d @ w @ s',
                  [(''Category'', take (length (c @ (sp @ rk @ d @ w @ s')) - length (sp @ rk @ d @ w @ s'))
                                      (c @ (sp @ rk @ d @ w @ s')))])"
    unfolding category_def by (rule first_Grp)
  then have f1: "first_match (Grp ''Category'' category) (?line, []) = Some (sp @ rk @ d @ w @ s', ?g1)"
    by simp
  have f2: "first_match spaces (sp @ (rk @ d @ w @ s'), ?g1) = Some (rk @ d @ w @ s', ?g1)"
    unfolding spaces_def using sp(2) sp(1)
    by (rule first_rep1) (use rk1 in \<open>cases rk; simp\<close>)
  have nd: "d @ w @ s' = [] \<or> \<not> digit (hd (d @ w @ s'))"
    using d by (auto simp: w' digit_def)
  have "first_match (Grp ''Rang'' rang) (rk @ (d @ w @ s'), ?g1)
          = Some (d @ w @ s',
                  (''Rang'', take (length (rk @ (d @ w @ s')) - length (d @ w @ s')) (rk @ (d @ w @ s')))
                    # ?g1)"
    by (rule first_Grp) (rule first_rang [OF rk nd])
  then have f3: "first_match (Grp ''Rang'' rang) (rk @ d @ w @ s', ?g1) = Some (d @ w @ s', ?g2)"
    by simp
  have f4: "first_match period (d @ w @ s', ?g2) = Some (w @ s', ?g2)"
    using d by (auto simp: w' first_period)
  from matches_complete [OF w, of s' ?g2] obtain g' where
    "(s', g') \<in> set (matches after_rank (w @ s', ?g2))" ..
  then have "matches after_rank (w @ s', ?g2) \<noteq> []" by auto
  then obtain z zs where m5: "matches after_rank (w @ s', ?g2) = z # zs"
    by (cases "matches after_rank (w @ s', ?g2)") auto
  then have f5: "first_match after_rank (w @ s', ?g2) = Some z"
    by (simp add: first_match_Some_iff)
  have "first_match pattern (?line, []) = Some z"
    unfolding pattern_split
    by (intro first_Seq [OF f1] first_Seq [OF f2] first_Seq [OF f3] first_Seq [OF f4] f5)
  then have in_p: "z \<in> set (matches pattern (?line, []))"
    and re: "re_match ?line = Some (snd z)"
    by (auto simp: first_match_Some_iff re_match_def split: prod.splits)
  from m5 have "(fst z, snd z) \<in> set (matches after_rank (w @ s', ?g2))" by simp
  from matches_extend [OF this] obtain pre where pre: "snd z = pre @ ?g2" ..
  from in_p have "(fst z, snd z) \<in> set (matches pattern (?line, []))" by simp
  from pattern_groups [OF this] obtain c0 r0 f0 y0 l0 where
    row: "snd z = [(''Location'', l0), (''Age_year'', y0), (''Fullname'', f0)] @ [(''Rang'', r0), (''Category'', c0)]
          \<or> (\<exists>t. snd z = [(''total_time'', t), (''Location'', l0), (''Age_year'', y0), (''Fullname'', f0)]
                           @ [(''Rang'', r0), (''Category'', c0)])"
    by auto
  then obtain A where A: "snd z = A @ [(''Rang'', r0), (''Category'', c0)]"
    and mA: "map_of A ''Rang'' = None" "map_of A ''Category'' = None"
    by auto
  from A pre have "A @ [(''Rang'', r0), (''Category'', c0)] = pre @ ?g2" by simp
  then have "[(''Rang'', r0), (''Category'', c0)] = ?g2" by simp
  then have eq: "r0 = rk" "c0 = c" by simp_all
  have "map_of (snd z) ''Rang'' = Some rk" "map_of (snd z) ''Category'' = Some c"
    unfolding A eq using mA by (simp_all add: map_add_def)
  with re show ?thesis by blast
qed

lemma results_rest_lang: "results_rest \<in> lang after_rank"
proof -
  have "[] \<in> set (map fst (matches after_rank (results_rest, [])))" by code_simp
  then obtain g where "([], g) \<in> set (matches after_rank (results_rest, []))" by auto
  from matches_sound [OF this] show ?thesis by simp
qed


subsection \<open>Frames whose event years are integers\<close>

lemma integer_years_row:
  assumes "integer_years df" and "r \<in> set (rows df)"
  shows "\<exists>n. r ''run_year'' = Some (Num n)"
proof -
  from assms have "case r ''run_year'' of Some (Num y) \<Rightarrow> True | _ \<Rightarrow> False"
    by (simp add: integer_years_def list_all_iff)
  then show ?thesis by (cases "r ''run_year''") (auto split: cell.splits)
qed

lemma with_age_run_year: "with_age r ''run_year'' = r ''run_year''"
  by (simp add: with_age_def Let_def)

lemma dashboard_integer_years:
  assumes "cleaned_frame db" and "add_age_columns db = Inr df"
  shows "integer_years df" and "integer_years (groupby_size df)"
proof -
  from assms(1) have cr: "''run_year'' \<in> set (columns db)"
    and cl: "\<forall>r \<in> set (rows db). cleaned_record r"
    by (simp_all add: cleaned_frame_def list_all_iff)
  from add_age_cleaned [OF assms(1)] assms(2)
  have rows: "rows df = map with_age (rows db)"
    and cols: "''run_year'' \<in> set (columns df)" "''age_group'' \<in> set (columns df)"
    using cr by auto
  have "case r ''run_year'' of Some (Num y) \<Rightarrow> True | _ \<Rightarrow> False" if "r \<in> set (rows df)" for r
  proof -
    from that rows obtain r0 where r0: "r0 \<in> set (rows db)" and r: "r = with_age r0" by auto
    from cl r0 have "cleaned_record r0" ..
    then obtain b y where "r0 ''run_year'' = Some (Num y)" by (rule cleaned_record_cells)
    then show ?thesis unfolding r by (simp add: with_age_run_year)
  qed
  with cols show "integer_years df" by (simp add: integer_years_def list_all_iff)
  show "integer_years (groupby_size df)"
    by (simp add: integer_years_def groupby_size_def list_all_iff group_row_def)
qed

lemma isin_cells:
  "isin (Text t) gs = (t \<in> set gs)" "isin (Num k) gs = False" "isin NA gs = False"
  by (simp_all add: isin_def)

lemma passes_integer_year:
  assumes "r ''run_year'' = Some (Num n)"
  shows "passes years groups r =
           ((selected years = [] \<or> str_int n \<in> set (selected years)) \<and>
            (selected groups = [] \<or> isin (cell r ''age_group'') (selected groups)))"
  using assms
  by (simp add: passes_def run_year_str_def age_group_of_def cell_def astype_str_def isin_def)


section \<open>Properties\<close>

text \<open>
  C1. Whatever the line, the extractor either finds no match, and the loop goes on with
  the next line and the frame unchanged, or it puts one complete row in front of the
  frame: category, rank, name, birth year and location are texts of the forms that the
  pattern prescribes, the time is such a text or missing, and link and year are those of
  the page. The loop itself is total, and the frame grows by exactly one row for each line
  that matches.
\<close>

theorem extract_complete_or_no_match:
  "((re_match runner = None \<and>
      runners_loop url year (runner # rest) df = runners_loop url year rest df)
    \<or> (\<exists>c r f y l tt.
          category_shape c \<and> rang_shape r \<and> fullname_shape f \<and> year_shape y \<and>
          location_shape l \<and> (tt = NA \<or> (\<exists>t. time_shape t \<and> tt = Text t)) \<and>
          runners_loop url year (runner # rest) df =
            runners_loop url year rest
              (concat_frames
                 \<lparr>columns = column_names,
                  rows = [[''Category'' \<mapsto> Text c, ''Rang'' \<mapsto> Text r, ''Fullname'' \<mapsto> Text f,
                           ''Age_year'' \<mapsto> Text y, ''Location'' \<mapsto> Text l, ''total_time'' \<mapsto> tt,
                           ''run_link'' \<mapsto> Text url, ''run_year'' \<mapsto> Num year]]\<rparr> df)))
   \<and> length (rows (runners_loop url year runners df)) =
       length (rows df) + length (filter (\<lambda>runner. re_match runner \<noteq> None) runners)"
proof (rule conjI)
  show "length (rows (runners_loop url year runners df)) =
       length (rows df) + length (filter (\<lambda>runner. re_match runner \<noteq> None) runners)"
    by (rule runners_loop_length)
next
  show "(re_match runner = None \<and>
      runners_loop url year (runner # rest) df = runners_loop url year rest df)
    \<or> (\<exists>c r f y l tt.
          category_shape c \<and> rang_shape r \<and> fullname_shape f \<and> year_shape y \<and>
          location_shape l \<and> (tt = NA \<or> (\<exists>t. time_shape t \<and> tt = Text t)) \<and>
          runners_loop url year (runner # rest) df =
            runners_loop url year rest
              (concat_frames
                 \<lparr>columns = column_names,
                  rows = [[''Category'' \<mapsto> Text c, ''Rang'' \<mapsto> Text r, ''Fullname'' \<mapsto> Text f,
                           ''Age_year'' \<mapsto> Text y, ''Location'' \<mapsto> Text l, ''total_time'' \<mapsto> tt,
                           ''run_link'' \<mapsto> Text url, ''run_year'' \<mapsto> Num year]]\<rparr> df))"
  proof (cases "re_match runner")
    case None
    then show ?thesis by simp
  next
    case (Some row)
    from re_match_Some [OF Some] obtain s' where "(s', row) \<in> set (matches pattern (runner, []))" ..
    from pattern_groups [OF this] obtain c r f y l where
      sh: "category_shape c" "rang_shape r" "fullname_shape f" "year_shape y" "location_shape l"
      and row: "row = [(''Location'', l), (''Age_year'', y), (''Fullname'', f), (''Rang'', r),
                       (''Category'', c)]
                \<or> (\<exists>t. time_shape t \<and>
                      row = [(''total_time'', t), (''Location'', l), (''Age_year'', y),
                             (''Fullname'', f), (''Rang'', r), (''Category'', c)])"
      by blast
    define tt where "tt = group_cell row ''total_time''"
    have tt: "tt = NA \<or> (\<exists>t. time_shape t \<and> tt = Text t)"
      using row by (auto simp: tt_def group_cell_def)
    have "new_row row url year =
            \<lparr>columns = column_names,
             rows = [[''Category'' \<mapsto> Text c, ''Rang'' \<mapsto> Text r, ''Fullname'' \<mapsto> Text f,
                      ''Age_year'' \<mapsto> Text y, ''Location'' \<mapsto> Text l, ''total_time'' \<mapsto> tt,
                      ''run_link'' \<mapsto> Text url, ''run_year'' \<mapsto> Num year]]\<rparr>"
      using row by (auto simp: new_row_def tt_def group_cell_def)
    then have "runners_loop url year (runner # rest) df =
            runners_loop url year rest
              (concat_frames
                 \<lparr>columns = column_names,
                  rows = [[''Category'' \<mapsto> Text c, ''Rang'' \<mapsto> Text r, ''Fullname'' \<mapsto> Text f,
                           ''Age_year'' \<mapsto> Text y, ''Location'' \<mapsto> Text l, ''total_time'' \<mapsto> tt,
                           ''run_link'' \<mapsto> Text url, ''run_year'' \<mapsto> Num year]]\<rparr> df)"
      using Some by simp
    with sh tt show ?thesis by blast
  qed
qed

text \<open>
  C2. On a frame of raw records the normalizer returns a frame (it raises nothing), and
  every row of it has an integer birth year \<open>b\<close> and an integer event year \<open>y\<close> with a
  strictly positive age; the age is the 64-bit difference, which is \<open>y - b\<close> itself for
  every event year from \<open>-2^63 + 9999\<close> on. The rows returned are exactly the rows of the
  input whose age is valid, in their order, and each of them is a row of the input in which
  nothing but the birth year changed, from the text of digits to the number it denotes: no
  value is put in the place of a missing or invalid one.
\<close>

theorem clean_output_positive_age:
  assumes "raw_frame df"
  shows "\<exists>out. snd (clean_runners_data df) = Inr out
      \<and> rows out = map (\<lambda>r. coerce_row r |` (- {''age''})) (filter valid_age (rows df))
      \<and> (\<forall>r \<in> set (rows out). \<exists>b y.
            r ''Age_year'' = Some (Num b) \<and> r ''run_year'' = Some (Num y)
            \<and> 0 < wrap64 (y - b) \<and> (- (2 ^ 63) + 9999 \<le> y \<longrightarrow> 0 < y - b)
            \<and> (\<exists>r0 \<in> set (rows df).
                  (\<exists>b0. r0 ''Age_year'' = Some (Text b0) \<and> list_all digit b0 \<and> b = int_of_digits b0)
                  \<and> r0 ''run_year'' = Some (Num y)
                  \<and> (\<forall>c. c \<noteq> ''Age_year'' \<and> c \<noteq> ''age'' \<longrightarrow> r c = r0 c)))"
proof -
  let ?f = "\<lambda>r. coerce_row r |` (- {''age''})"
  let ?out = "\<lparr>columns = column_names, rows = map ?f (filter valid_age (rows df))\<rparr>"
  from assms have raw: "\<forall>r \<in> set (rows df). raw_record r"
    by (simp add: raw_frame_def list_all_iff)
  have row: "\<exists>b y.
            r ''Age_year'' = Some (Num b) \<and> r ''run_year'' = Some (Num y)
            \<and> 0 < wrap64 (y - b) \<and> (- (2 ^ 63) + 9999 \<le> y \<longrightarrow> 0 < y - b)
            \<and> (\<exists>r0 \<in> set (rows df).
                  (\<exists>b0. r0 ''Age_year'' = Some (Text b0) \<and> list_all digit b0 \<and> b = int_of_digits b0)
                  \<and> r0 ''run_year'' = Some (Num y)
                  \<and> (\<forall>c. c \<noteq> ''Age_year'' \<and> c \<noteq> ''age'' \<longrightarrow> r c = r0 c))"
    if "r \<in> set (rows ?out)" for r
  proof -
    from that have "r \<in> ?f ` set (filter valid_age (rows df))"
      by (simp only: frame.select_convs set_map)
    then obtain r0 where r0: "r0 \<in> set (filter valid_age (rows df))" and r: "r = ?f r0" ..
    from r0 have in_df: "r0 \<in> set (rows df)" and valid: "valid_age r0" by simp_all
    from raw in_df have "raw_record r0" ..
    from clean_output_row [OF this valid] obtain b0 y where
      p0: "r0 ''Age_year'' = Some (Text b0)" and p1: "list_all digit b0"
      and p2: "r0 ''run_year'' = Some (Num y)"
      and p3: "?f r0 ''Age_year'' = Some (Num (int_of_digits b0))"
      and p4: "?f r0 ''run_year'' = Some (Num y)"
      and p5: "0 < wrap64 (y - int_of_digits b0)"
      and p6: "- (2 ^ 63) + 9999 \<le> y \<longrightarrow> 0 < y - int_of_digits b0"
      and p7: "\<forall>c. c \<noteq> ''Age_year'' \<and> c \<noteq> ''age'' \<longrightarrow> ?f r0 c = r0 c"
      by (elim exE conjE) (rule that, assumption+)
    show ?thesis
      unfolding r
      by (intro exI [of _ "int_of_digits b0"] exI [of _ y] conjI bexI [of _ r0] exI [of _ b0]
          p0 p1 p2 p3 p4 p5 p6 p7 in_df refl)
  qed
  have res: "snd (clean_runners_data df) = Inr ?out"
    by (simp only: clean_raw [OF assms] snd_conv)
  have rws: "rows ?out = map ?f (filter valid_age (rows df))"
    by (simp only: frame.select_convs)
  show ?thesis
  proof (intro exI [of _ ?out] conjI)
    show "snd (clean_runners_data df) = Inr ?out" by (rule res)
    show "rows ?out = map ?f (filter valid_age (rows df))" by (rule rws)
    show "\<forall>r \<in> set (rows ?out). \<exists>b y.
            r ''Age_year'' = Some (Num b) \<and> r ''run_year'' = Some (Num y)
            \<and> 0 < wrap64 (y - b) \<and> (- (2 ^ 63) + 9999 \<le> y \<longrightarrow> 0 < y - b)
            \<and> (\<exists>r0 \<in> set (rows df).
                  (\<exists>b0. r0 ''Age_year'' = Some (Text b0) \<and> list_all digit b0 \<and> b = int_of_digits b0)
                  \<and> r0 ''run_year'' = Some (Num y)
                  \<and> (\<forall>c. c \<noteq> ''Age_year'' \<and> c \<noteq> ''age'' \<longrightarrow> r c = r0 c))"
      by (rule ballI) (rule row)
  qed
qed

theorem clean_output_positive_age_witness:
  "raw_frame two_runners
   \<and> (\<exists>out. snd (clean_runners_data two_runners) = Inr out
      \<and> rows out = map (\<lambda>r. coerce_row r |` (- {''age''})) (filter valid_age (rows two_runners))
      \<and> (\<forall>r \<in> set (rows out). \<exists>b y.
            r ''Age_year'' = Some (Num b) \<and> r ''run_year'' = Some (Num y)
            \<and> 0 < wrap64 (y - b) \<and> (- (2 ^ 63) + 9999 \<le> y \<longrightarrow> 0 < y - b)
            \<and> (\<exists>r0 \<in> set (rows two_runners).
                  (\<exists>b0. r0 ''Age_year'' = Some (Text b0) \<and> list_all digit b0 \<and> b = int_of_digits b0)
                  \<and> r0 ''run_year'' = Some (Num y)
                  \<and> (\<forall>c. c \<noteq> ''Age_year'' \<and> c \<noteq> ''age'' \<longrightarrow> r c = r0 c))))
   \<and> filter valid_age (rows two_runners) = [jane]"
proof -
  note h = raw_frame_two_runners
  have v: "filter valid_age (rows two_runners) = [jane]"
    by (simp add: two_runners_def valid_age_def age_of_def sub64_def run_year_of_def
        Age_year_of_def as_Int64_def to_numeric_def cell_def ann_def jane_def digit_def
        int_of_digits_def wrap64_def)
  show ?thesis
    by (intro conjI h v clean_output_positive_age [OF h])
qed

text \<open>
  C4. In a frame of raw records, a row whose birth year is the text \<open>????\<close> gets a
  missing birth year (\<open>to_numeric\<close> gives missing for it, not 0) and a missing age in
  the caller's frame, and the frame returned is the one that the call returns without that
  row: none of the returned rows comes from it.
\<close>

theorem placeholder_birth_year_dropped:
  assumes "raw_frame (df\<lparr>rows := pre @ r # post\<rparr>)"
    and "r ''Age_year'' = Some (Text ''????'')"
  shows "to_numeric (Text ''????'') = NA
     \<and> (rows (fst (clean_runners_data (df\<lparr>rows := pre @ r # post\<rparr>))) ! length pre) ''Age_year'' = Some NA
     \<and> (rows (fst (clean_runners_data (df\<lparr>rows := pre @ r # post\<rparr>))) ! length pre) ''age'' = Some NA
     \<and> snd (clean_runners_data (df\<lparr>rows := pre @ r # post\<rparr>))
         = snd (clean_runners_data (df\<lparr>rows := pre @ post\<rparr>))
     \<and> (\<exists>out. snd (clean_runners_data (df\<lparr>rows := pre @ r # post\<rparr>)) = Inr out
           \<and> length (rows out) = length (filter valid_age pre) + length (filter valid_age post))"
proof -
  let ?df = "df\<lparr>rows := pre @ r # post\<rparr>"
  let ?df' = "df\<lparr>rows := pre @ post\<rparr>"
  from assms(1) have raw': "raw_frame ?df'" by (simp add: raw_frame_rows)
  note nv = placeholder_not_valid(1) [of r, OF assms(2)] placeholder_not_valid(2) [of r, OF assms(2)]
    placeholder_not_valid(3) [of r, OF assms(2)]
  have t: "to_numeric (Text ''????'') = NA" by (simp add: to_numeric_def digit_def)
  have nth: "rows (fst (clean_runners_data ?df)) ! length pre = coerce_row r"
    by (simp add: clean_raw [OF assms(1)] nth_append)
  have c1: "coerce_row r ''Age_year'' = Some NA"
    using nv(1) by (simp add: coerce_row_def of_Int64_def)
  have c2: "coerce_row r ''age'' = Some NA"
    using nv(2) by (simp add: coerce_row_def of_Int64_def)
  have same: "snd (clean_runners_data ?df) = snd (clean_runners_data ?df')"
    using nv(3) by (simp add: clean_raw [OF assms(1)] clean_raw [OF raw'])
  have len: "\<exists>out. snd (clean_runners_data ?df) = Inr out
           \<and> length (rows out) = length (filter valid_age pre) + length (filter valid_age post)"
    using nv(3) by (simp add: clean_raw [OF assms(1)])
  show ?thesis
    by (intro conjI t same len) (simp_all only: nth c1 c2)
qed

theorem placeholder_birth_year_dropped_witness:
  "raw_frame (two_runners\<lparr>rows := [] @ ann # [jane]\<rparr>)
   \<and> ann ''Age_year'' = Some (Text ''????'')
   \<and> to_numeric (Text ''????'') = NA
   \<and> (rows (fst (clean_runners_data (two_runners\<lparr>rows := [] @ ann # [jane]\<rparr>))) ! length ([]::row list)) ''Age_year'' = Some NA
   \<and> (rows (fst (clean_runners_data (two_runners\<lparr>rows := [] @ ann # [jane]\<rparr>))) ! length ([]::row list)) ''age'' = Some NA
   \<and> snd (clean_runners_data (two_runners\<lparr>rows := [] @ ann # [jane]\<rparr>))
       = snd (clean_runners_data (two_runners\<lparr>rows := [] @ [jane]\<rparr>))
   \<and> (\<exists>out. snd (clean_runners_data (two_runners\<lparr>rows := [] @ ann # [jane]\<rparr>)) = Inr out
         \<and> length (rows out) = length (filter valid_age []) + length (filter valid_age [jane]))"
proof -
  have h: "raw_frame (two_runners\<lparr>rows := [] @ ann # [jane]\<rparr>)"
    using raw_frame_two_runners by (simp add: two_runners_def)
  have a: "ann ''Age_year'' = Some (Text ''????'')" by (simp add: ann_def)
  from placeholder_birth_year_dropped [where df = two_runners and pre = "[]" and r = ann and post = "[jane]", OF h a] h a
  show ?thesis by (intro conjI) blast+
qed

text \<open>
  C7. The line of the scenario does not match: after the time the pattern asks for a
  space, at least one more character that is not a space, a space again and then the
  number in parentheses, and the line has the number right after the time. Nothing is
  extracted from it.
\<close>

theorem spec_line_no_match:
  "re_match spec_line = None
   \<and> rows (scrape_runners_data [(''alfaj.htm'', 2020, Some [spec_line])]) = []"
  by code_simp


text \<open>
  C7, as the code has it. With one more field before the number in parentheses the line
  is extracted, with event year 2020, into the record of the scenario; the normalizer keeps
  it with birth year 1980, and the dashboard gives it the age 40 and the group 30-40.
\<close>

theorem results_line_extracted_and_normalized:
  "re_match results_line =
     Some [(''total_time'', ''3:45:10''), (''Location'', ''Zurich''), (''Age_year'', ''1980''),
           (''Fullname'', ''Jane Doe''), (''Rang'', ''123''), (''Category'', ''M40'')]
   \<and> table (scrape_runners_data [(''alfaj.htm'', 2020, Some [results_line])]) =
       [[Text ''M40'', Text ''123'', Text ''Jane Doe'', Text ''1980'', Text ''Zurich'',
         Text ''3:45:10'', Text ''alfaj.htm'', Num 2020]]
   \<and> map_sum id table (dashboard_frame (scrape_runners_data [(''alfaj.htm'', 2020, Some [results_line])])) =
       Inr [[Text ''M40'', Text ''123'', Text ''Jane Doe'', Num 1980, Text ''Zurich'',
             Text ''3:45:10'', Text ''alfaj.htm'', Num 2020, Num 40, Text ''30-40'']]"
  by code_simp


text \<open>
  C8. Whatever is extracted has for rank a text of digits or one of \<open>DNF\<close>,
  \<open>DSQ\<close>, \<open>OUT\<close>, and never a period: a period after the rank is matched and left
  out, and another token (\<open>DNS\<close>, or two tokens in a row) is no rank. Conversely every
  such rank is accepted: the pattern is the category, spaces, the rank, an optional period
  and the rest \<open>after_rank\<close>, and a line made of a category, one or more spaces, any
  non-empty text of digits or \<open>DNF\<close>, \<open>DSQ\<close>, \<open>OUT\<close>, a period or none, and a text that
  the rest of the pattern matches, followed by anything, is matched with exactly that text
  as \<open>Rang\<close>. A line with the rank \<open>DNF\<close> goes through normalizer and dashboard as one
  with a number does. The normalizer does not look at the rank: with any other ranks in the
  frame it returns the same rows in the same order, with those ranks.
\<close>

theorem rank_is_opaque:
  "(re_match runner = None
      \<or> (\<exists>row w. re_match runner = Some row \<and> map_of row ''Rang'' = Some w
            \<and> rang_shape w \<and> CHR ''.'' \<notin> set w))
   \<and> pattern = Seq (Grp ''Category'' category) (Seq spaces (Seq (Grp ''Rang'' rang)
                  (Seq period after_rank)))
   \<and> (category_shape c \<and> sp \<noteq> [] \<and> list_all (\<lambda>x. x = CHR '' '') sp
        \<and> rang_shape rk \<and> (d = [] \<or> d = ''.'') \<and> rest \<in> lang after_rank \<longrightarrow>
        (\<exists>row. re_match (c @ sp @ rk @ d @ rest @ junk) = Some row
           \<and> map_of row ''Rang'' = Some rk \<and> map_of row ''Category'' = Some c))
   \<and> map_option (\<lambda>row. map_of row ''Rang'') (re_match ''M40 123. Jane Doe 1980 Zurich 3:45:10 0:12 (55)'') = Some (Some ''123'')
   \<and> map_option (\<lambda>row. map_of row ''Rang'') (re_match ''M40 DNF Jane Doe 1980 Zurich 3:45:10 0:12 (55)'') = Some (Some ''DNF'')
   \<and> map_option (\<lambda>row. map_of row ''Rang'') (re_match ''M40 DNF. Jane Doe 1980 Zurich 3:45:10 0:12 (55)'') = Some (Some ''DNF'')
   \<and> map_option (\<lambda>row. map_of row ''Rang'') (re_match ''M40 DSQ Jane Doe 1980 Zurich 3:45:10 0:12 (55)'') = Some (Some ''DSQ'')
   \<and> map_option (\<lambda>row. map_of row ''Rang'') (re_match ''M40 OUT Jane Doe 1980 Zurich 3:45:10 0:12 (55)'') = Some (Some ''OUT'')
   \<and> re_match ''M40 DNS Jane Doe 1980 Zurich 3:45:10 0:12 (55)'' = None
   \<and> re_match ''M40 DNFDSQ Jane Doe 1980 Zurich 3:45:10 0:12 (55)'' = None
   \<and> map_sum id table (dashboard_frame (scrape_runners_data
         [(''alfaj.htm'', 2020, Some [''M40 DNF Jane Doe 1980 Zurich 3:45:10 0:12 (55)''])])) =
       Inr [[Text ''M40'', Text ''DNF'', Text ''Jane Doe'', Num 1980, Text ''Zurich'',
             Text ''3:45:10'', Text ''alfaj.htm'', Num 2020, Num 40, Text ''30-40'']]
   \<and> (raw_frame df \<longrightarrow>
        (\<exists>out out'. snd (clean_runners_data df) = Inr out
           \<and> snd (clean_runners_data (df\<lparr>rows := map (\<lambda>r. r(''Rang'' \<mapsto> f r)) (rows df)\<rparr>)) = Inr out'
           \<and> rows out = map (\<lambda>r. coerce_row r |` (- {''age''})) (filter valid_age (rows df))
           \<and> rows out' = map (\<lambda>r. (coerce_row r |` (- {''age''}))(''Rang'' \<mapsto> f r))
                              (filter valid_age (rows df))))"
proof -
  have a: "re_match runner = None
      \<or> (\<exists>row w. re_match runner = Some row \<and> map_of row ''Rang'' = Some w
            \<and> rang_shape w \<and> CHR ''.'' \<notin> set w)"
  proof (cases "re_match runner")
    case None
    then show ?thesis by simp
  next
    case (Some row)
    from re_match_Rang [OF Some] Some show ?thesis by blast
  qed
  have b: "category_shape c \<and> sp \<noteq> [] \<and> list_all (\<lambda>x. x = CHR '' '') sp
        \<and> rang_shape rk \<and> (d = [] \<or> d = ''.'') \<and> rest \<in> lang after_rank \<longrightarrow>
        (\<exists>row. re_match (c @ sp @ rk @ d @ rest @ junk) = Some row
           \<and> map_of row ''Rang'' = Some rk \<and> map_of row ''Category'' = Some c)"
  proof (rule impI, elim conjE)
    assume "category_shape c" "sp \<noteq> []" "list_all (\<lambda>x. x = CHR '' '') sp"
      "rang_shape rk" "d = [] \<or> d = ''.''" "rest \<in> lang after_rank"
    then show "\<exists>row. re_match (c @ sp @ rk @ d @ rest @ junk) = Some row
           \<and> map_of row ''Rang'' = Some rk \<and> map_of row ''Category'' = Some c"
      by (rule rank_accepted)
  qed
  have c: "raw_frame df \<longrightarrow>
        (\<exists>out out'. snd (clean_runners_data df) = Inr out
           \<and> snd (clean_runners_data (df\<lparr>rows := map (\<lambda>r. r(''Rang'' \<mapsto> f r)) (rows df)\<rparr>)) = Inr out'
           \<and> rows out = map (\<lambda>r. coerce_row r |` (- {''age''})) (filter valid_age (rows df))
           \<and> rows out' = map (\<lambda>r. (coerce_row r |` (- {''age''}))(''Rang'' \<mapsto> f r))
                              (filter valid_age (rows df)))"
    by (rule impI) (rule clean_ignores_rank)
  show ?thesis
    by (intro conjI a b c pattern_split rank_examples)
qed

theorem rank_is_opaque_witness:
  "raw_frame two_runners
   \<and> (\<exists>out out'. snd (clean_runners_data two_runners) = Inr out
        \<and> snd (clean_runners_data
                 (two_runners\<lparr>rows := map (\<lambda>r. r(''Rang'' \<mapsto> Text ''DNF'')) (rows two_runners)\<rparr>))
            = Inr out'
        \<and> rows out = map (\<lambda>r. coerce_row r |` (- {''age''})) (filter valid_age (rows two_runners))
        \<and> rows out' = map (\<lambda>r. (coerce_row r |` (- {''age''}))(''Rang'' \<mapsto> Text ''DNF''))
                           (filter valid_age (rows two_runners)))
   \<and> (\<exists>row w. re_match results_line = Some row \<and> map_of row ''Rang'' = Some w
            \<and> rang_shape w \<and> CHR ''.'' \<notin> set w)
   \<and> category_shape ''M40'' \<and> rang_shape ''20417'' \<and> results_rest \<in> lang after_rank
   \<and> (\<exists>row. re_match (''M40'' @ ''  '' @ ''20417'' @ ''.'' @ results_rest @ '' trailing text'')
               = Some row
        \<and> map_of row ''Rang'' = Some ''20417'' \<and> map_of row ''Category'' = Some ''M40'')"
proof -
  note t = rank_is_opaque [where runner = results_line and df = two_runners
      and f = "\<lambda>r. Text ''DNF''" and c = "''M40''" and sp = "''  ''" and rk = "''20417''"
      and d = "''.''" and rest = results_rest and junk = "'' trailing text''"]
  have m: "re_match results_line \<noteq> None" by code_simp
  from t have "re_match results_line = None
      \<or> (\<exists>row w. re_match results_line = Some row \<and> map_of row ''Rang'' = Some w
            \<and> rang_shape w \<and> CHR ''.'' \<notin> set w)" by (rule conjunct1)
  with m have a: "\<exists>row w. re_match results_line = Some row \<and> map_of row ''Rang'' = Some w
            \<and> rang_shape w \<and> CHR ''.'' \<notin> set w" by (elim disjE) (erule notE, assumption)
  have h1: "category_shape ''M40''" by (simp add: category_shape_def)
  have h2: "rang_shape ''20417''" by (simp add: rang_shape_def digit_def)
  have h3: "''  '' \<noteq> [] \<and> list_all (\<lambda>x. x = CHR '' '') ''  ''" by simp
  note h4 = results_rest_lang
  from t have "category_shape ''M40'' \<and> ''  '' \<noteq> [] \<and> list_all (\<lambda>x. x = CHR '' '') ''  ''
        \<and> rang_shape ''20417'' \<and> (''.'' = [] \<or> ''.'' = ''.'') \<and> results_rest \<in> lang after_rank \<longrightarrow>
        (\<exists>row. re_match (''M40'' @ ''  '' @ ''20417'' @ ''.'' @ results_rest @ '' trailing text'')
               = Some row
        \<and> map_of row ''Rang'' = Some ''20417'' \<and> map_of row ''Category'' = Some ''M40'')"
    by (rule conjunct2 [THEN conjunct2, THEN conjunct1])
  moreover have "category_shape ''M40'' \<and> ''  '' \<noteq> [] \<and> list_all (\<lambda>x. x = CHR '' '') ''  ''
        \<and> rang_shape ''20417'' \<and> (''.'' = [] \<or> ''.'' = ''.'') \<and> results_rest \<in> lang after_rank"
    using h1 h2 h4 by simp
  ultimately have b: "\<exists>row. re_match (''M40'' @ ''  '' @ ''20417'' @ ''.'' @ results_rest @ '' trailing text'')
               = Some row
        \<and> map_of row ''Rang'' = Some ''20417'' \<and> map_of row ''Category'' = Some ''M40''"
    by (rule mp)
  from t have "raw_frame two_runners \<longrightarrow>
        (\<exists>out out'. snd (clean_runners_data two_runners) = Inr out
        \<and> snd (clean_runners_data
                 (two_runners\<lparr>rows := map (\<lambda>r. r(''Rang'' \<mapsto> Text ''DNF'')) (rows two_runners)\<rparr>))
            = Inr out'
        \<and> rows out = map (\<lambda>r. coerce_row r |` (- {''age''})) (filter valid_age (rows two_runners))
        \<and> rows out' = map (\<lambda>r. (coerce_row r |` (- {''age''}))(''Rang'' \<mapsto> Text ''DNF''))
                           (filter valid_age (rows two_runners)))"
    by (elim conjE)
  with raw_frame_two_runners have c: "\<exists>out out'. snd (clean_runners_data two_runners) = Inr out
        \<and> snd (clean_runners_data
                 (two_runners\<lparr>rows := map (\<lambda>r. r(''Rang'' \<mapsto> Text ''DNF'')) (rows two_runners)\<rparr>))
            = Inr out'
        \<and> rows out = map (\<lambda>r. coerce_row r |` (- {''age''})) (filter valid_age (rows two_runners))
        \<and> rows out' = map (\<lambda>r. (coerce_row r |` (- {''age''}))(''Rang'' \<mapsto> Text ''DNF''))
                           (filter valid_age (rows two_runners))"
    by (rule rev_mp)
  show ?thesis by (intro conjI raw_frame_two_runners c a h1 h2 h4 b)
qed

text \<open>
  C9. The frame that \<open>clean_runners_data\<close> returns carries neither derived field: on
  the frame of the two example rows it returns the one valid row, with the eight columns
  of the extractor and no cell for \<open>age\<close> or \<open>age_group\<close>.
\<close>

theorem clean_output_lacks_derived_fields:
  "snd (clean_runners_data two_runners) = Inr \<lparr>columns = column_names, rows = [jane(''Age_year'' \<mapsto> Num 1980)]\<rparr>
   \<and> ''age'' \<notin> set column_names \<and> ''age_group'' \<notin> set column_names
   \<and> (jane(''Age_year'' \<mapsto> Num 1980)) ''age'' = None
   \<and> (jane(''Age_year'' \<mapsto> Num 1980)) ''age_group'' = None"
proof -
  have v: "filter valid_age (rows two_runners) = [jane]"
    by (simp add: two_runners_def valid_age_def age_of_def sub64_def run_year_of_def
        Age_year_of_def as_Int64_def to_numeric_def cell_def ann_def jane_def digit_def
        int_of_digits_def wrap64_def)
  have r: "coerce_row jane |` (- {''age''}) = jane(''Age_year'' \<mapsto> Num 1980)"
    by (rule ext)
      (simp add: coerce_row_def restrict_map_def age_of_def sub64_def run_year_of_def
        Age_year_of_def as_Int64_def to_numeric_def cell_def jane_def digit_def
        int_of_digits_def wrap64_def of_Int64_def)
  show ?thesis
    by (simp add: clean_raw [OF raw_frame_two_runners] v r) (simp add: column_names_def jane_def)
qed

text \<open>
  C9, as the code has it. The normalizer returns the eight columns only: it drops the age
  that it computed and computes no age group. The dashboard attaches both to the frame
  that it loads: on the normalizer's output every row gets the age, the 64-bit difference
  of event year and birth year, and the group of that age.
\<close>

theorem dashboard_attaches_derived_fields:
  assumes "raw_frame df"
  shows "\<exists>out loaded. snd (clean_runners_data df) = Inr out
     \<and> columns out = column_names \<and> ''age'' \<notin> set (columns out) \<and> ''age_group'' \<notin> set (columns out)
     \<and> add_age_columns out = Inr loaded
     \<and> columns loaded = column_names @ [''age'', ''age_group'']
     \<and> rows loaded = map with_age (rows out)
     \<and> (\<forall>r \<in> set (rows out). \<exists>b y. r ''Age_year'' = Some (Num b) \<and> r ''run_year'' = Some (Num y)
           \<and> r ''age'' = None
           \<and> with_age r ''age'' = Some (Num (wrap64 (y - b)))
           \<and> with_age r ''age_group'' = Some (Text (set_age_group (wrap64 (y - b)))))"
proof -
  let ?f = "\<lambda>r. coerce_row r |` (- {''age''})"
  let ?out = "\<lparr>columns = column_names, rows = map ?f (filter valid_age (rows df))\<rparr>"
  let ?loaded = "\<lparr>columns = column_names @ [''age'', ''age_group''], rows = map with_age (rows ?out)\<rparr>"
  have cl: "cleaned_frame ?out" by (rule clean_output_cleaned [OF assms])
  have res: "snd (clean_runners_data df) = Inr ?out"
    by (simp only: clean_raw [OF assms] snd_conv)
  have load: "add_age_columns ?out = Inr ?loaded"
    using add_age_cleaned [OF cl] by (simp add: column_names_def)
  have row: "\<exists>b y. r ''Age_year'' = Some (Num b) \<and> r ''run_year'' = Some (Num y)
           \<and> r ''age'' = None
           \<and> with_age r ''age'' = Some (Num (wrap64 (y - b)))
           \<and> with_age r ''age_group'' = Some (Text (set_age_group (wrap64 (y - b))))"
    if "r \<in> set (rows ?out)" for r
  proof -
    from that have "r \<in> ?f ` set (filter valid_age (rows df))"
      by (simp only: frame.select_convs set_map)
    then obtain r0 where r: "r = ?f r0" ..
    have na: "r ''age'' = None" unfolding r by (simp add: restrict_map_def)
    from cl have "list_all cleaned_record (rows ?out)" unfolding cleaned_frame_def by (elim conjE)
    then have "\<forall>x \<in> set (rows ?out). cleaned_record x" by (simp only: list_all_iff)
    from this that have "cleaned_record r" ..
    from with_age_key [OF this] obtain b y where
      k: "r ''Age_year'' = Some (Num b)" "r ''run_year'' = Some (Num y)"
      "with_age r ''age'' = Some (Num (wrap64 (y - b)))"
      "with_age r ''age_group'' = Some (Text (set_age_group (wrap64 (y - b))))"
      by (elim exE conjE) (rule that, assumption+)
    show ?thesis by (intro exI [of _ b] exI [of _ y] conjI k na)
  qed
  show ?thesis
  proof (rule exI [of _ ?out], rule exI [of _ ?loaded], intro conjI)
    show "snd (clean_runners_data df) = Inr ?out" by (rule res)
    show "columns ?out = column_names" by simp
    show "''age'' \<notin> set (columns ?out)" by (simp add: column_names_def)
    show "''age_group'' \<notin> set (columns ?out)" by (simp add: column_names_def)
    show "add_age_columns ?out = Inr ?loaded" by (rule load)
    show "columns ?loaded = column_names @ [''age'', ''age_group'']" by simp
    show "rows ?loaded = map with_age (rows ?out)" by simp
    show "\<forall>r \<in> set (rows ?out). \<exists>b y. r ''Age_year'' = Some (Num b) \<and> r ''run_year'' = Some (Num y)
           \<and> r ''age'' = None
           \<and> with_age r ''age'' = Some (Num (wrap64 (y - b)))
           \<and> with_age r ''age_group'' = Some (Text (set_age_group (wrap64 (y - b))))"
      by (rule ballI) (rule row)
  qed
qed

theorem dashboard_attaches_derived_fields_witness:
  "raw_frame two_runners
   \<and> (\<exists>out loaded. snd (clean_runners_data two_runners) = Inr out
     \<and> columns out = column_names \<and> ''age'' \<notin> set (columns out) \<and> ''age_group'' \<notin> set (columns out)
     \<and> add_age_columns out = Inr loaded
     \<and> columns loaded = column_names @ [''age'', ''age_group'']
     \<and> rows loaded = map with_age (rows out)
     \<and> (\<forall>r \<in> set (rows out). \<exists>b y. r ''Age_year'' = Some (Num b) \<and> r ''run_year'' = Some (Num y)
           \<and> r ''age'' = None
           \<and> with_age r ''age'' = Some (Num (wrap64 (y - b)))
           \<and> with_age r ''age_group'' = Some (Text (set_age_group (wrap64 (y - b))))))"
  by (intro conjI raw_frame_two_runners dashboard_attaches_derived_fields [OF raw_frame_two_runners])

text \<open>
  C10. The call changes the frame object that it is given: afterwards that frame has the
  column \<open>age\<close> after its eight columns, all its rows in their order, and in each row
  the birth year coerced (no longer the text), the event year and the age. The rows are
  filtered and the column \<open>age\<close> is dropped in the returned frame only.
\<close>

theorem clean_mutates_caller_frame:
  assumes "raw_frame df"
  shows "\<exists>df' out. clean_runners_data df = (df', Inr out)
     \<and> df' \<noteq> df
     \<and> columns df' = column_names @ [''age'']
     \<and> rows df' = map coerce_row (rows df)
     \<and> (\<forall>r \<in> set (rows df). \<exists>b y. r ''Age_year'' = Some (Text b) \<and> r ''run_year'' = Some (Num y)
           \<and> coerce_row r ''Age_year'' = Some (to_numeric (Text b))
           \<and> to_numeric (Text b) \<noteq> Text b
           \<and> coerce_row r ''run_year'' = Some (Num y)
           \<and> coerce_row r ''age'' = Some (of_Int64 (age_of r)))
     \<and> columns out = column_names
     \<and> rows out = map (\<lambda>r. coerce_row r |` (- {''age''})) (filter valid_age (rows df))"
proof -
  let ?df' = "\<lparr>columns = column_names @ [''age''], rows = map coerce_row (rows df)\<rparr>"
  let ?out = "\<lparr>columns = column_names,
           rows = map (\<lambda>r. coerce_row r |` (- {''age''})) (filter valid_age (rows df))\<rparr>"
  from assms have cols: "columns df = column_names" and raw: "\<forall>r \<in> set (rows df). raw_record r"
    by (simp_all add: raw_frame_def list_all_iff)
  have ne: "?df' \<noteq> df"
  proof
    assume "?df' = df"
    then have "columns ?df' = columns df" by simp
    with cols show False by simp
  qed
  have row: "\<exists>b y. r ''Age_year'' = Some (Text b) \<and> r ''run_year'' = Some (Num y)
           \<and> coerce_row r ''Age_year'' = Some (to_numeric (Text b))
           \<and> to_numeric (Text b) \<noteq> Text b
           \<and> coerce_row r ''run_year'' = Some (Num y)
           \<and> coerce_row r ''age'' = Some (of_Int64 (age_of r))" if "r \<in> set (rows df)" for r
  proof -
    from raw that have "raw_record r" ..
    then obtain b y where c: "r ''Age_year'' = Some (Text b)" "r ''run_year'' = Some (Num y)"
      "year_shape b" "int64 y" by (rule raw_record_cells)
    have ok: "ok64 (to_numeric (Text b))"
      using raw_record_ok(1) [OF \<open>raw_record r\<close>] c(1) by (simp add: cell_def)
    have c1: "coerce_row r ''Age_year'' = Some (to_numeric (Text b))"
      using c(1) of_Int64_as_Int64 [OF ok] by (simp add: coerce_row_def Age_year_of_def cell_def)
    have c2: "to_numeric (Text b) \<noteq> Text b" using ok by (auto simp: ok64_def)
    have c3: "coerce_row r ''run_year'' = Some (Num y)"
      using c(2) by (simp add: coerce_row_def run_year_of_def cell_def as_Int64_def of_Int64_def)
    have c4: "coerce_row r ''age'' = Some (of_Int64 (age_of r))" by (simp add: coerce_row_def)
    show ?thesis by (intro exI [of _ b] exI [of _ y] conjI c(1) c(2) c1 c2 c3 c4)
  qed
  show ?thesis
  proof (rule exI [of _ ?df'], rule exI [of _ ?out], intro conjI)
    show "clean_runners_data df = (?df', Inr ?out)" by (rule clean_raw [OF assms])
    show "?df' \<noteq> df" by (rule ne)
    show "columns ?df' = column_names @ [''age'']" by simp
    show "rows ?df' = map coerce_row (rows df)" by simp
    show "columns ?out = column_names" by simp
    show "rows ?out = map (\<lambda>r. coerce_row r |` (- {''age''})) (filter valid_age (rows df))" by simp
    show "\<forall>r \<in> set (rows df). \<exists>b y. r ''Age_year'' = Some (Text b) \<and> r ''run_year'' = Some (Num y)
           \<and> coerce_row r ''Age_year'' = Some (to_numeric (Text b))
           \<and> to_numeric (Text b) \<noteq> Text b
           \<and> coerce_row r ''run_year'' = Some (Num y)
           \<and> coerce_row r ''age'' = Some (of_Int64 (age_of r))"
      by (rule ballI) (rule row)
  qed
qed

theorem clean_mutates_caller_frame_witness:
  "raw_frame two_runners
   \<and> (\<exists>df' out. clean_runners_data two_runners = (df', Inr out)
     \<and> df' \<noteq> two_runners
     \<and> columns df' = column_names @ [''age'']
     \<and> rows df' = map coerce_row (rows two_runners)
     \<and> (\<forall>r \<in> set (rows two_runners). \<exists>b y. r ''Age_year'' = Some (Text b) \<and> r ''run_year'' = Some (Num y)
           \<and> coerce_row r ''Age_year'' = Some (to_numeric (Text b))
           \<and> to_numeric (Text b) \<noteq> Text b
           \<and> coerce_row r ''run_year'' = Some (Num y)
           \<and> coerce_row r ''age'' = Some (of_Int64 (age_of r)))
     \<and> columns out = column_names
     \<and> rows out = map (\<lambda>r. coerce_row r |` (- {''age''})) (filter valid_age (rows two_runners)))"
  by (intro conjI raw_frame_two_runners clean_mutates_caller_frame [OF raw_frame_two_runners])

text \<open>
  C5. For the frame that the dashboard makes of a cleaned frame, and its aggregate: whatever
  the two selections, the counts of the filtered aggregate add up to the number of filtered
  rows. With no selection the rows are all the rows, so the counts of the whole aggregate
  add up to the number of records, and every record belongs to exactly one row of the
  aggregate.
\<close>

theorem aggregate_counts_match_rows:
  assumes "cleaned_frame db" and "add_age_columns db = Inr df"
  shows "sum_counts (fst (update_chart_and_table df (groupby_size df) years groups))
           = int (length (snd (update_chart_and_table df (groupby_size df) years groups)))
       \<and> snd (update_chart_and_table df (groupby_size df) None None) = rows df
       \<and> sum_counts (fst (update_chart_and_table df (groupby_size df) None None))
           = int (length (rows df))
       \<and> sum_counts (groupby_size df) = int (length (rows df))
       \<and> (\<forall>r \<in> set (rows df).
             length (filter (\<lambda>g. cell g ''run_year'' = cell r ''run_year''
                                  \<and> cell g ''age_group'' = cell r ''age_group'')
                            (rows (groupby_size df))) = 1)"
proof -
  note keys = loaded_rows(2) [OF assms]
  have gen: "sum_counts (fst (update_chart_and_table df (groupby_size df) ys gs))
           = int (length (snd (update_chart_and_table df (groupby_size df) ys gs)))" for ys gs
    using sum_counts_filtered [OF keys, of "[''run_year'', ''age_group'', ''Count athletes'']" ys gs]
    by (simp add: update_rows groupby_size_def)
  have all: "filter (passes None None) xs = xs" for xs
    by (simp add: passes_None)
  have none: "snd (update_chart_and_table df (groupby_size df) None None) = rows df"
    by (simp add: update_rows all)
  have whole: "fst (update_chart_and_table df (groupby_size df) None None) = groupby_size df"
    by (simp add: update_rows all)
  have one: "\<forall>r \<in> set (rows df).
             length (filter (\<lambda>g. cell g ''run_year'' = cell r ''run_year''
                                  \<and> cell g ''age_group'' = cell r ''age_group'')
                            (rows (groupby_size df))) = 1"
  proof
    fix r assume r: "r \<in> set (rows df)"
    with keys obtain k where "group_key r = Some k" by auto
    from one_group [OF this r] show "length (filter (\<lambda>g. cell g ''run_year'' = cell r ''run_year''
                                  \<and> cell g ''age_group'' = cell r ''age_group'')
                            (rows (groupby_size df))) = 1"
      by (simp add: groupby_size_def)
  qed
  show ?thesis
    using gen [of years groups] gen [of None None] none whole one
    by (simp only: simp_thms)
qed

theorem aggregate_counts_match_rows_witness:
  "cleaned_frame cleaned_example \<and> add_age_columns cleaned_example = Inr loaded_example
   \<and> sum_counts (fst (update_chart_and_table loaded_example (groupby_size loaded_example)
                         (Some [''2020'']) (Some [''30-40''])))
       = int (length (snd (update_chart_and_table loaded_example (groupby_size loaded_example)
                         (Some [''2020'']) (Some [''30-40'']))))
   \<and> sum_counts (groupby_size loaded_example) = int (length (rows loaded_example))
   \<and> length (rows loaded_example) = 2
   \<and> length (snd (update_chart_and_table loaded_example (groupby_size loaded_example)
                         (Some [''2020'']) (Some [''30-40'']))) = 1"
proof -
  note t = aggregate_counts_match_rows [OF cleaned_frame_example add_age_example,
      of "Some [''2020'']" "Some [''30-40'']"]
  have l: "length (rows loaded_example) = 2"
    by (simp add: loaded_example_def cleaned_example_def)
  from t have a: "sum_counts (fst (update_chart_and_table loaded_example (groupby_size loaded_example)
                         (Some [''2020'']) (Some [''30-40''])))
       = int (length (snd (update_chart_and_table loaded_example (groupby_size loaded_example)
                         (Some [''2020'']) (Some [''30-40'']))))" by (rule conjunct1)
  from t have b: "sum_counts (groupby_size loaded_example) = int (length (rows loaded_example))"
    by (elim conjE)
  show ?thesis
    by (intro conjI cleaned_frame_example add_age_example a b l example_selection)
qed


text \<open>
  C6. On frames that have the columns \<open>run_year\<close> and \<open>age_group\<close> and an integer in
  every cell of \<open>run_year\<close>, as the frames of the dashboard are, the callback keeps, in the
  records and in the aggregate alike, the rows that pass both selections. An absent or
  empty selection lets every row pass; otherwise the decimal text of the event year must
  be a member of the selected years, and the age group, which is compared as it is, a
  member of the selected groups. The decimal text tells integers apart. In particular an
  empty selection of years with a selection of groups tests the group only.
\<close>

theorem filter_by_selection:
  assumes "integer_years df" and "integer_years df2"
  shows "snd (update_chart_and_table df df2 years groups) = filter (passes years groups) (rows df)
   \<and> fst (update_chart_and_table df df2 years groups)
        = df2\<lparr>rows := filter (passes years groups) (rows df2)\<rparr>
   \<and> update_chart_and_table df df2 None None = (df2, rows df)
   \<and> update_chart_and_table df df2 (Some []) (Some []) = (df2, rows df)
   \<and> (\<forall>r \<in> set (rows df) \<union> set (rows df2). \<exists>n. r ''run_year'' = Some (Num n)
         \<and> passes years groups r =
             ((selected years = [] \<or> str_int n \<in> set (selected years)) \<and>
              (selected groups = [] \<or> isin (cell r ''age_group'') (selected groups)))
         \<and> passes None (Some (g # gs)) r = isin (cell r ''age_group'') (g # gs)
         \<and> passes (Some []) (Some (g # gs)) r = isin (cell r ''age_group'') (g # gs)
         \<and> passes (Some (y # ys)) None r = (str_int n \<in> set (y # ys)))
   \<and> isin (Text t) ts = (t \<in> set ts) \<and> isin (Num k) ts = False \<and> isin NA ts = False
   \<and> (str_int n = str_int m) = (n = m) \<and> str_int 2014 = ''2014''"
proof -
  have all: "filter (passes None None) xs = xs" "filter (passes (Some []) (Some [])) xs = xs" for xs
    by (simp_all add: passes_None)
  have row: "\<exists>n. r ''run_year'' = Some (Num n)
         \<and> passes years groups r =
             ((selected years = [] \<or> str_int n \<in> set (selected years)) \<and>
              (selected groups = [] \<or> isin (cell r ''age_group'') (selected groups)))
         \<and> passes None (Some (g # gs)) r = isin (cell r ''age_group'') (g # gs)
         \<and> passes (Some []) (Some (g # gs)) r = isin (cell r ''age_group'') (g # gs)
         \<and> passes (Some (y # ys)) None r = (str_int n \<in> set (y # ys))"
    if "r \<in> set (rows df) \<union> set (rows df2)" for r
  proof -
    from that assms integer_years_row obtain n where n: "r ''run_year'' = Some (Num n)"
      by (meson UnE)
    note p = passes_integer_year [where r = r, OF n]
    have p1: "passes None (Some (g # gs)) r = isin (cell r ''age_group'') (g # gs)"
      and p2: "passes (Some []) (Some (g # gs)) r = isin (cell r ''age_group'') (g # gs)"
      and p3: "passes (Some (y # ys)) None r = (str_int n \<in> set (y # ys))"
      by (simp_all add: p selected_def)
    show ?thesis by (intro exI [of _ n] conjI n p p1 p2 p3)
  qed
  show ?thesis
  proof (intro conjI)
    show "\<forall>r \<in> set (rows df) \<union> set (rows df2). \<exists>n. r ''run_year'' = Some (Num n)
         \<and> passes years groups r =
             ((selected years = [] \<or> str_int n \<in> set (selected years)) \<and>
              (selected groups = [] \<or> isin (cell r ''age_group'') (selected groups)))
         \<and> passes None (Some (g # gs)) r = isin (cell r ''age_group'') (g # gs)
         \<and> passes (Some []) (Some (g # gs)) r = isin (cell r ''age_group'') (g # gs)
         \<and> passes (Some (y # ys)) None r = (str_int n \<in> set (y # ys))"
      by (rule ballI) (rule row)
  qed (simp_all add: update_rows all isin_cells str_int_inj str_int_2014)
qed

theorem filter_by_selection_witness:
  "integer_years loaded_example \<and> integer_years (groupby_size loaded_example)
   \<and> snd (update_chart_and_table loaded_example (groupby_size loaded_example) None (Some [''30-40'']))
       = filter (passes None (Some [''30-40''])) (rows loaded_example)
   \<and> fst (update_chart_and_table loaded_example (groupby_size loaded_example) None (Some [''30-40'']))
       = (groupby_size loaded_example)
           \<lparr>rows := filter (passes None (Some [''30-40''])) (rows (groupby_size loaded_example))\<rparr>
   \<and> table (fst (update_chart_and_table loaded_example (groupby_size loaded_example) None
                    (Some [''30-40''])))
       = [[Num 2020, Text ''30-40'', Num 1]]
   \<and> length (snd (update_chart_and_table loaded_example (groupby_size loaded_example) None
                     (Some [''30-40'']))) = 1"
proof -
  note iy = dashboard_integer_years [OF cleaned_frame_example add_age_example]
  note t = filter_by_selection [OF iy, of None "Some [''30-40'']"]
  from t have a: "snd (update_chart_and_table loaded_example (groupby_size loaded_example) None (Some [''30-40'']))
       = filter (passes None (Some [''30-40''])) (rows loaded_example)" by (rule conjunct1)
  from t have b: "fst (update_chart_and_table loaded_example (groupby_size loaded_example) None (Some [''30-40'']))
       = (groupby_size loaded_example)
           \<lparr>rows := filter (passes None (Some [''30-40''])) (rows (groupby_size loaded_example))\<rparr>"
    by (rule conjunct2 [THEN conjunct1])
  have c: "table (fst (update_chart_and_table loaded_example (groupby_size loaded_example) None
                    (Some [''30-40''])))
       = [[Num 2020, Text ''30-40'', Num 1]]" by code_simp
  have d: "length (snd (update_chart_and_table loaded_example (groupby_size loaded_example) None
                     (Some [''30-40'']))) = 1" by code_simp
  show ?thesis by (intro conjI iy a b c d)
qed

text \<open>
  C3. The classifier is total on the integers, zero and the negative ones included: every
  age falls in one of the five buckets, each bucket is exactly the interval that is open
  below and closed above, and the boundary values 20, 21, 50 and 51 land as stated.
\<close>

theorem set_age_group_buckets:
  "set_age_group age \<in> {''0-20'', ''20-30'', ''30-40'', ''40-50'', ''50+''}
   \<and> (set_age_group age = ''0-20'') = (age \<le> 20)
   \<and> (set_age_group age = ''20-30'') = (20 < age \<and> age \<le> 30)
   \<and> (set_age_group age = ''30-40'') = (30 < age \<and> age \<le> 40)
   \<and> (set_age_group age = ''40-50'') = (40 < age \<and> age \<le> 50)
   \<and> (set_age_group age = ''50+'') = (50 < age)
   \<and> set_age_group 20 = ''0-20'' \<and> set_age_group 21 = ''20-30''
   \<and> set_age_group 50 = ''40-50'' \<and> set_age_group 51 = ''50+''
   \<and> set_age_group 0 = ''0-20'' \<and> set_age_group (- 7) = ''0-20''"
  by (simp add: set_age_group_def)

end
